theory Spec2Isabelle
  imports Main "HOL-Library.Word"
begin

unbundle bit_operations_syntax

section \<open>Sequence numbers\<close>

text \<open>
  \<^verbatim>\<open>sequence_number.h\<close> is included by \<^verbatim>\<open>ack_set.h\<close> but is not among the sources.
  A sequence number is an unsigned 32-bit counter; arithmetic on it wraps.
\<close>

type_synonym SequenceNumber = "32 word"

text \<open>
  Modelled from the spec: the comparison of the type \<^verbatim>\<open>SequenceNumber\<close>, whose header
  \<^verbatim>\<open>sequence_number.h\<close> is missing. Comparisons are modular: \<open>a < b\<close> iff \<open>b - a\<close>,
  interpreted as a signed 32-bit value, is positive and non-zero; \<open>a > b\<close> is \<open>b < a\<close>;
  equality is bitwise.
\<close>

definition sn_less :: "SequenceNumber \<Rightarrow> SequenceNumber \<Rightarrow> bool" where
  "sn_less a b \<longleftrightarrow> 0 < sint (b - a)"

section \<open>AckSet (\<^verbatim>\<open>ack_set.h\<close>)\<close>

text \<open>
  The class has two sequence numbers and one 32-bit storage unit split into the bit-fields
  \<^verbatim>\<open>predecessors : 31\<close> and \<^verbatim>\<open>is_empty : 1\<close>.
\<close>

record AckSet =
  highest_sequence_number :: SequenceNumber
  lowest_sequence_number :: SequenceNumber
  predecessors :: "31 word"
  is_empty :: bool

text \<open>
  The constructor \<^verbatim>\<open>AckSet()\<close> initialises only \<^verbatim>\<open>predecessors\<close> and \<^verbatim>\<open>is_empty\<close>;
  the two sequence numbers hold whatever their default construction leaves there, here the
  parameters \<open>h0\<close> and \<open>l0\<close>.
\<close>

definition AckSet_init :: "SequenceNumber \<Rightarrow> SequenceNumber \<Rightarrow> AckSet" where
  "AckSet_init h0 l0 =
     \<lparr>highest_sequence_number = h0, lowest_sequence_number = l0,
      predecessors = 0, is_empty = True\<rparr>"

text \<open>
  \<^verbatim>\<open>predecessors & (1 << k)\<close>: the bit-field is promoted to a 32-bit integer and masked
  with the shifted one.
\<close>

definition pred_test :: "31 word \<Rightarrow> nat \<Rightarrow> bool" where
  "pred_test p k \<longleftrightarrow> (ucast p AND push_bit k (1 :: 32 word)) \<noteq> 0"

text \<open>
  \<^verbatim>\<open>predecessors |= 1 << k\<close>: promoted, or-ed, and truncated again to the 31 bits of
  the field.
\<close>

definition pred_set :: "31 word \<Rightarrow> nat \<Rightarrow> 31 word" where
  "pred_set p k = ucast (ucast p OR push_bit k (1 :: 32 word))"

text \<open>\<^verbatim>\<open>predecessors <<= shift\<close>, truncated to the 31 bits of the field.\<close>

definition pred_shl :: "31 word \<Rightarrow> nat \<Rightarrow> 31 word" where
  "pred_shl p k = ucast (push_bit k (ucast p :: 32 word))"

text \<open>
  The loop of \<^verbatim>\<open>try_add\<close> that guards an advance of the highest number:
  \<^verbatim>\<open>for (decltype(shift) i = 0; i < shift; ++i)
    if (!((hsn < lowest_sequence_number + 31 - i) || (predecessors & (1 << (30-i)))))
      return false;\<close>
  The function is the loop from counter \<open>i\<close> on; \<open>False\<close> is the early return. The counter
  and \<open>shift\<close> are plain 32-bit differences, compared as unsigned numbers (in this branch
  \<open>1 \<le> shift \<le> 31\<close>, see \<open>advance_shift_range\<close>).
\<close>

function shift_guard :: "AckSet \<Rightarrow> SequenceNumber \<Rightarrow> 32 word \<Rightarrow> 32 word \<Rightarrow> bool" where
  "shift_guard a hsn shift i =
     (if i < shift then
        (if \<not> (sn_less hsn (lowest_sequence_number a + 31 - i)
                \<or> pred_test (predecessors a) (unat (30 - i)))
         then False
         else shift_guard a hsn shift (i + 1))
      else True)"
  by pat_completeness auto
termination
proof (relation "measure (\<lambda>(a, hsn, shift, i). unat shift - unat i)")
  show "wf (measure (\<lambda>(a, hsn, shift, i). unat shift - unat i))"
    by simp
next
  fix a :: AckSet and hsn shift i :: "32 word"
  assume "i < shift"
  then have "unat (i + 1) = unat i + 1" and "unat i < unat shift"
    by unat_arith+
  then show "((a, hsn, shift, i + 1), (a, hsn, shift, i))
      \<in> measure (\<lambda>(a, hsn, shift, i). unat shift - unat i)"
    by simp
qed

declare shift_guard.simps [simp del]

text \<open>
  \<^verbatim>\<open>bool AckSet::try_add(SequenceNumber new_sn)\<close>: the returned flag and the object
  after the call.
\<close>

definition try_add :: "SequenceNumber \<Rightarrow> AckSet \<Rightarrow> bool \<times> AckSet" where
  "try_add new_sn a =
     (if is_empty a then
        (True, a\<lparr>highest_sequence_number := new_sn, lowest_sequence_number := new_sn,
                 is_empty := False, predecessors := 0\<rparr>)
      else
        let hsn = highest_sequence_number a in
        if new_sn = hsn then (True, a)
        else if sn_less new_sn hsn then
          (if sn_less new_sn (hsn - 31) then (True, a)
           else (True, a\<lparr>predecessors :=
                          pred_set (predecessors a) (unat (hsn - new_sn - 1))\<rparr>))
        else
          (if sn_less (hsn + 31) new_sn then (False, a)
           else
             let shift = new_sn - hsn in
             if \<not> shift_guard a hsn shift 0 then (False, a)
             else
               let was_empty = is_empty a;
                   a1 = a\<lparr>is_empty := False\<rparr>;
                   a2 = a1\<lparr>predecessors := pred_shl (predecessors a1) (unat shift)\<rparr>;
                   a3 = a2\<lparr>predecessors := pred_set (predecessors a2) (unat (shift - 1))\<rparr>;
                   a4 = a3\<lparr>is_empty := was_empty\<rparr>
               in (True, a4\<lparr>highest_sequence_number := new_sn\<rparr>)))"

subsection \<open>The iterator\<close>

text \<open>
  An iterator is a reference to the AckSet and a position \<^verbatim>\<open>size_t pos\<close>.
  \<^verbatim>\<open>operator*\<close> asserts that the set is not empty (\<open>None\<close> is the failed assertion)
  and returns \<^verbatim>\<open>highest_sequence_number - pos\<close>.
\<close>

definition deref :: "AckSet \<Rightarrow> nat \<Rightarrow> SequenceNumber option" where
  "deref a pos =
     (if is_empty a then None else Some (highest_sequence_number a - of_nat pos))"

text \<open>
  Prefix increment:
  \<^verbatim>\<open>while (pos < 32 && (acks.predecessors & (1 << (++pos - 1))) == 0) {}\<close>
\<close>

function increment :: "AckSet \<Rightarrow> nat \<Rightarrow> nat" where
  "increment a pos =
     (if pos < 32 then
        (let pos' = pos + 1 in
         if \<not> pred_test (predecessors a) (pos' - 1) then increment a pos' else pos')
      else pos)"
  by pat_completeness auto
termination
  by (relation "measure (\<lambda>(a, pos). 32 - pos)") auto

declare increment.simps [simp del]

text \<open>\<^verbatim>\<open>end()\<close> is position 32; \<^verbatim>\<open>begin()\<close> is \<^verbatim>\<open>end()\<close> for an empty set, else position 0.\<close>

definition ackset_end :: nat where
  "ackset_end = 32"

definition ackset_begin :: "AckSet \<Rightarrow> nat" where
  "ackset_begin a = (if is_empty a then ackset_end else 0)"

text \<open>
  The traversal \<^verbatim>\<open>for (auto i = acks.begin(); i != acks.end(); ++i)\<close>, collecting
  \<^verbatim>\<open>*i\<close>. The loop condition is an inequality of positions, so that the traversal is a
  partial function: \<open>None\<close> is a traversal that does not return or whose assertion fails.
\<close>

partial_function (option) iterate_from :: "AckSet \<Rightarrow> nat \<Rightarrow> SequenceNumber list option" where
  "iterate_from a pos =
     (if pos = ackset_end then Some []
      else case deref a pos of
             None \<Rightarrow> None
           | Some x \<Rightarrow>
               Option.bind (iterate_from a (increment a pos)) (\<lambda>xs. Some (x # xs)))"

definition iterate :: "AckSet \<Rightarrow> SequenceNumber list option" where
  "iterate a = iterate_from a (ackset_begin a)"

text \<open>Successive calls of \<^verbatim>\<open>try_add\<close>, with the flags returned.\<close>

fun add_all :: "SequenceNumber list \<Rightarrow> AckSet \<Rightarrow> bool list \<times> AckSet" where
  "add_all [] a = ([], a)"
| "add_all (sn # sns) a =
     (let (ok, a') = try_add sn a; (oks, a'') = add_all sns a' in (ok # oks, a''))"

subsection \<open>The window invariant\<close>

text \<open>
  The invariant behind the window property: relative to a base \<open>b\<close>, every number added
  so far (the set \<open>P\<close>) lies at an offset of at most that of the highest value, which is
  at most 31; the first number is the lowest; and bit \<open>i\<close> of the bitmap says that the
  number \<open>i + 1\<close> below the highest value was added.
\<close>

definition window_inv :: "32 word \<Rightarrow> 32 word set \<Rightarrow> AckSet \<Rightarrow> bool" where
  "window_inv b P a \<longleftrightarrow>
     \<not> is_empty a
     \<and> highest_sequence_number a \<in> P
     \<and> lowest_sequence_number a \<in> P
     \<and> unat (highest_sequence_number a - b) \<le> 31
     \<and> (\<forall>x\<in>P. unat (x - b) \<le> unat (highest_sequence_number a - b))
     \<and> (\<forall>i<31. bit (predecessors a) i
            \<longleftrightarrow> (\<exists>x\<in>P. unat (x - b) + Suc i = unat (highest_sequence_number a - b)))"

section \<open>TransmitQueue (\<^verbatim>\<open>transmit_queue.h\<close>)\<close>

subsection \<open>Collaborators that are not among the sources\<close>

text \<open>
  A \<^verbatim>\<open>boost::uuids::uuid\<close> is 16 bytes, ordered as the 128-bit number they spell. A
  \<^verbatim>\<open>std::set<uuid>\<close> is modelled by the list of its elements in iteration order, which
  is strictly increasing; \<^verbatim>\<open>insert\<close> keeps that order and \<^verbatim>\<open>erase(key)\<close> removes the
  key.
\<close>

type_synonym uuid = "128 word"
type_synonym byte = "8 word"

definition set_insert :: "uuid \<Rightarrow> uuid list \<Rightarrow> uuid list" where
  "set_insert x xs = (if x \<in> set xs then xs else insort x xs)"

definition set_erase :: "uuid \<Rightarrow> uuid list \<Rightarrow> uuid list" where
  "set_erase x xs = removeAll x xs"

text \<open>
  Modelled from the spec: the class \<^verbatim>\<open>Message\<close> of \<^verbatim>\<open>transport/message.h\<close>, which is
  missing. A message has a source peer, the set of targets that still need it, its wire
  bytes and a reliability class; the queue reads \<^verbatim>\<open>source\<close>, \<^verbatim>\<open>targets\<close>, \<^verbatim>\<open>bytes\<close>
  and \<^verbatim>\<open>is_reliable()\<close>.
\<close>

record Message =
  source :: uuid
  targets :: "uuid list"
  bytes :: "byte list"
  is_reliable :: bool

text \<open>
  Messages are shared through \<^verbatim>\<open>std::shared_ptr<Message>\<close>: a pointer is an address
  into a store of message objects.
\<close>

type_synonym msg_ptr = nat
type_synonym store = "msg_ptr \<Rightarrow> Message"

text \<open>
  Modelled from the spec: the class \<^verbatim>\<open>binary::encoder\<close> of \<^verbatim>\<open>binary/encoder.h\<close>, which
  is missing. The encoder object is a write cursor \<^verbatim>\<open>_current.begin\<close>, the end of its
  buffer \<^verbatim>\<open>_current.end\<close> and the flag \<^verbatim>\<open>_was_error\<close>; the buffer itself is memory
  outside the object. A write that does not fit, or that follows an error, sets the error
  flag and writes nothing.
\<close>

record encoder =
  current_begin :: nat
  current_end :: nat
  was_error :: bool

type_synonym memory = "nat \<Rightarrow> byte"

fun write_bytes :: "memory \<Rightarrow> nat \<Rightarrow> byte list \<Rightarrow> memory" where
  "write_bytes m a [] = m"
| "write_bytes m a (b # bs) = write_bytes (m(a := b)) (Suc a) bs"

definition put_raw :: "byte list \<Rightarrow> encoder \<times> memory \<Rightarrow> encoder \<times> memory" where
  "put_raw bs = (\<lambda>(e, m).
     if was_error e \<or> current_end e - current_begin e < length bs
     then (e\<lparr>was_error := True\<rparr>, m)
     else (e\<lparr>current_begin := current_begin e + length bs\<rparr>,
           write_bytes m (current_begin e) bs))"

definition uuid_bytes :: "uuid \<Rightarrow> byte list" where
  "uuid_bytes u = map (\<lambda>i. ucast (drop_bit (8 * (15 - i)) u)) [0..<16]"

definition put_uuid :: "uuid \<Rightarrow> encoder \<times> memory \<Rightarrow> encoder \<times> memory" where
  "put_uuid u = put_raw (uuid_bytes u)"

definition put_u8 :: "byte \<Rightarrow> encoder \<times> memory \<Rightarrow> encoder \<times> memory" where
  "put_u8 b = put_raw [b]"

definition set_error :: "encoder \<Rightarrow> encoder" where
  "set_error e = e\<lparr>was_error := True\<rparr>"

subsection \<open>Errors\<close>

text \<open>
  A failed \<^verbatim>\<open>assert\<close> aborts the program; the error carries the line of the assertion
  in \<^verbatim>\<open>transmit_queue.h\<close>. With \<^verbatim>\<open>NDEBUG\<close> defined (the flag \<open>ndebug\<close> of the functions
  below) assertions are compiled out. Using an iterator that points to no element of the
  list is undefined behaviour.
\<close>

datatype error = AssertionFailed nat | UndefinedBehaviour

subsection \<open>The list of messages and its iterators\<close>

text \<open>
  \<^verbatim>\<open>std::list<MessagePtr>\<close>: every element lives in a node of its own, and an iterator
  is the identity of a node, or \<open>None\<close> for \<^verbatim>\<open>end()\<close>. Erasing a node leaves the
  iterators to it dangling: they are equal to no iterator of the list any more.
\<close>

type_synonym node = nat
type_synonym Messages = "(node \<times> msg_ptr) list"
type_synonym iterator = "node option"

definition list_begin :: "Messages \<Rightarrow> iterator" where
  "list_begin xs = (case xs of [] \<Rightarrow> None | x # _ \<Rightarrow> Some (fst x))"

text \<open>\<^verbatim>\<open>++i\<close> for an iterator to the node \<open>n\<close> of the list.\<close>

definition list_next :: "node \<Rightarrow> Messages \<Rightarrow> iterator" where
  "list_next n xs =
     (case dropWhile (\<lambda>x. fst x \<noteq> n) xs of _ # y # _ \<Rightarrow> Some (fst y) | _ \<Rightarrow> None)"

text \<open>\<^verbatim>\<open>--i\<close>, for \<open>i\<close> the end or an iterator to a node other than the first.\<close>

definition list_prev :: "iterator \<Rightarrow> Messages \<Rightarrow> iterator" where
  "list_prev i xs =
     (case i of
        None \<Rightarrow> (if xs = [] then None else Some (fst (last xs)))
      | Some n \<Rightarrow>
          (case takeWhile (\<lambda>x. fst x \<noteq> n) xs of [] \<Rightarrow> None | ys \<Rightarrow> Some (fst (last ys))))"

text \<open>\<^verbatim>\<open>insert(i, x)\<close> puts the new node before \<open>i\<close>.\<close>

definition list_insert :: "iterator \<Rightarrow> node \<times> msg_ptr \<Rightarrow> Messages \<Rightarrow> Messages" where
  "list_insert i x xs =
     (case i of
        None \<Rightarrow> xs @ [x]
      | Some n \<Rightarrow> takeWhile (\<lambda>y. fst y \<noteq> n) xs @ x # dropWhile (\<lambda>y. fst y \<noteq> n) xs)"

definition list_erase :: "node \<Rightarrow> Messages \<Rightarrow> Messages" where
  "list_erase n xs = filter (\<lambda>x. fst x \<noteq> n) xs"

text \<open>\<^verbatim>\<open>*i\<close>: the pointer stored in the node.\<close>

definition list_deref :: "node \<Rightarrow> Messages \<Rightarrow> msg_ptr option" where
  "list_deref n xs = map_of xs n"

subsection \<open>The queue\<close>

text \<open>
  The fields of the class. \<open>q_alloc\<close> is the number of list nodes allocated so far and
  gives each new node its identity; \<open>q_released\<close> records the pointers handed to
  \<^verbatim>\<open>_outbound_messages->release\<close> (\<^verbatim>\<open>outbound_messages.h\<close> is not among the sources),
  oldest first.
\<close>

record TransmitQueue =
  q_targets :: "uuid list"
  q_messages :: Messages
  q_next :: iterator
  q_target_intersection :: "uuid list"
  q_released :: "msg_ptr list"
  q_alloc :: node

text \<open>The constructor: no targets, no messages, \<^verbatim>\<open>_next(_messages.end())\<close>.\<close>

definition TransmitQueue_init :: TransmitQueue where
  "TransmitQueue_init =
     \<lparr>q_targets = [], q_messages = [], q_next = None, q_target_intersection = [],
      q_released = [], q_alloc = 0\<rparr>"

definition add_target :: "uuid \<Rightarrow> TransmitQueue \<Rightarrow> TransmitQueue" where
  "add_target ident q = q\<lparr>q_targets := set_insert ident (q_targets q)\<rparr>"

text \<open>
  \<^verbatim>\<open>_messages.insert(_next, std::move(message));
  if (_next == _messages.end()) _next = _messages.begin();\<close>
\<close>

definition insert_message :: "msg_ptr \<Rightarrow> TransmitQueue \<Rightarrow> TransmitQueue" where
  "insert_message message q =
     (let q1 = q\<lparr>q_messages := list_insert (q_next q) (q_alloc q, message) (q_messages q),
                 q_alloc := Suc (q_alloc q)\<rparr>
      in if q_next q1 = None then q1\<lparr>q_next := list_begin (q_messages q1)\<rparr> else q1)"

text \<open>
  \<^verbatim>\<open>assert(!_messages.empty() && i != _messages.end());
  if (++i == _messages.end()) i = _messages.begin();\<close>
  The result is the new value of the iterator passed by reference.
\<close>

definition circular_increment :: "bool \<Rightarrow> TransmitQueue \<Rightarrow> iterator \<Rightarrow> error + iterator" where
  "circular_increment ndebug q i =
     (if \<not> ndebug \<and> \<not> (q_messages q \<noteq> [] \<and> i \<noteq> None) then Inl (AssertionFailed 111)
      else case i of
             None \<Rightarrow> Inl UndefinedBehaviour
           | Some n \<Rightarrow>
               if list_deref n (q_messages q) = None then Inl UndefinedBehaviour
               else case list_next n (q_messages q) of
                      None \<Rightarrow> Inr (list_begin (q_messages q))
                    | Some n' \<Rightarrow> Inr (Some n'))"

text \<open>
  \<^verbatim>\<open>erase(i)\<close>: the message of the node is released, then the node is erased; when it
  was the cursor, the cursor moves to the following node, circularly.
\<close>

definition erase :: "node \<Rightarrow> TransmitQueue \<Rightarrow> error + TransmitQueue" where
  "erase i q =
     (case list_deref i (q_messages q) of
        None \<Rightarrow> Inl UndefinedBehaviour
      | Some p \<Rightarrow>
          let q1 = q\<lparr>q_released := q_released q @ [p]\<rparr> in
          if Some i = q_next q1 then
            let q2 = q1\<lparr>q_next := list_next i (q_messages q1),
                        q_messages := list_erase i (q_messages q1)\<rparr>
            in Inr (if q_next q2 = None then q2\<lparr>q_next := list_begin (q_messages q2)\<rparr> else q2)
          else Inr (q1\<lparr>q_messages := list_erase i (q_messages q1)\<rparr>))"

text \<open>\<^verbatim>\<open>std::set_intersection\<close> of two sorted ranges, appended to the emptied vector.\<close>

fun set_intersection :: "uuid list \<Rightarrow> uuid list \<Rightarrow> uuid list" where
  "set_intersection (x # xs) (y # ys) =
     (if x < y then set_intersection xs (y # ys)
      else if y < x then set_intersection (x # xs) ys
      else x # set_intersection xs ys)"
| "set_intersection [] ys = []"
| "set_intersection xs [] = []"

text \<open>
  \<^verbatim>\<open>encode_targets\<close>: more than 255 targets fail the assertion, or set the error flag
  when assertions are compiled out; otherwise the count goes out as one byte, followed by
  the targets.
\<close>

definition encode_targets ::
    "bool \<Rightarrow> encoder \<times> memory \<Rightarrow> uuid list \<Rightarrow> error + encoder \<times> memory" where
  "encode_targets ndebug em ts =
     (if length ts > 255 then
        (if ndebug then Inr (set_error (fst em), snd em) else Inl (AssertionFailed 226))
      else Inr (fold put_uuid ts (put_u8 (of_nat (length ts)) em)))"

definition encode ::
    "bool \<Rightarrow> encoder \<times> memory \<Rightarrow> uuid list \<Rightarrow> Message \<Rightarrow> error + encoder \<times> memory" where
  "encode ndebug em ts msg =
     (case encode_targets ndebug (put_uuid (source msg) em) ts of
        Inl err \<Rightarrow> Inl err
      | Inr em' \<Rightarrow> Inr (put_raw (bytes msg) em'))"

text \<open>
  \<^verbatim>\<open>try_encode\<close>: the returned flag, and the encoder and its buffer after the call.
\<close>

definition try_encode ::
    "bool \<Rightarrow> encoder \<times> memory \<Rightarrow> uuid list \<Rightarrow> Message \<Rightarrow> error + bool \<times> encoder \<times> memory" where
  "try_encode ndebug em ts msg =
     (let prev_begin = current_begin (fst em);
          prev_error = was_error (fst em)
      in case encode ndebug em ts msg of
           Inl err \<Rightarrow> Inl err
         | Inr (e, m) \<Rightarrow>
             if was_error e
             then Inr (False, e\<lparr>current_begin := prev_begin, was_error := prev_error\<rparr>, m)
             else Inr (True, e, m))"

subsection \<open>\<^verbatim>\<open>encode_few\<close>\<close>

text \<open>
  What a call of \<^verbatim>\<open>encode_few\<close> works on: the queue, the store of the shared messages,
  the encoder passed by reference and its buffer, and the local \<^verbatim>\<open>uint16_t count\<close>.
  \<open>encoded\<close> is a ghost variable: the messages encoded successfully so far, each with the
  target vector written into its record. It is never read by the code.
\<close>

record state =
  queue :: TransmitQueue
  heap :: store
  enc :: encoder
  mem :: memory
  count :: "16 word"
  encoded :: "(msg_ptr \<times> uuid list) list"

datatype flow = Break | Continue

text \<open>
  \<^verbatim>\<open>erase(current); if (_messages.empty()) break;\<close> and then what follows in the loop:
  \<open>otherwise\<close> is \<open>Continue\<close> after the \<^verbatim>\<open>continue\<close> statement of the first erasure, and
  the outcome of \<^verbatim>\<open>if (is_last) break;\<close> after the second.
\<close>

definition erase_current :: "node \<Rightarrow> flow \<Rightarrow> state \<Rightarrow> error + flow \<times> state" where
  "erase_current current otherwise s =
     (case erase current (queue s) of
        Inl err \<Rightarrow> Inl err
      | Inr q \<Rightarrow> Inr (if q_messages q = [] then Break else otherwise, s\<lparr>queue := q\<rparr>))"

text \<open>
  The end of the loop body, after a successful \<^verbatim>\<open>try_encode\<close> and \<^verbatim>\<open>++count\<close>: an
  unreliable message loses every target of the link, and is erased when no target is left.
\<close>

definition after_encode :: "node \<Rightarrow> msg_ptr \<Rightarrow> bool \<Rightarrow> state \<Rightarrow> error + flow \<times> state" where
  "after_encode current p is_last s =
     (if \<not> is_reliable (heap s p) then
        let m = heap s p;
            m' = m\<lparr>targets := fold set_erase (q_targets (queue s)) (targets m)\<rparr>;
            s' = s\<lparr>heap := (heap s)(p := m')\<rparr>
        in if targets m' = []
           then erase_current current (if is_last then Break else Continue) s'
           else Inr (if is_last then Break else Continue, s')
      else Inr (if is_last then Break else Continue, s))"

text \<open>
  The loop body from the test of \<^verbatim>\<open>_target_intersection\<close> on, for the node
  \<open>current\<close> and the message \<open>p\<close> it holds: an irrelevant message is erased; a message
  that does not fit moves the cursor back to \<open>current\<close> and leaves the loop; a message
  that fits is counted.
\<close>

definition encode_current ::
    "bool \<Rightarrow> node \<Rightarrow> msg_ptr \<Rightarrow> bool \<Rightarrow> state \<Rightarrow> error + flow \<times> state" where
  "encode_current ndebug current p is_last s =
     (let ti = q_target_intersection (queue s) in
      if ti = [] then erase_current current Continue s
      else case try_encode ndebug (enc s, mem s) ti (heap s p) of
             Inl err \<Rightarrow> Inl err
           | Inr (ok, e, m) \<Rightarrow>
               if \<not> ok
               then Inr (Break, s\<lparr>queue := (queue s)\<lparr>q_next := Some current\<rparr>,
                                  enc := e, mem := m\<rparr>)
               else after_encode current p is_last
                      (s\<lparr>enc := e, mem := m, count := count s + 1,
                         encoded := encoded s @ [(p, ti)]\<rparr>))"

text \<open>
  One pass through the body of \<^verbatim>\<open>while (true)\<close>; \<open>last_it\<close> is the local \<^verbatim>\<open>last\<close>:
  \<^verbatim>\<open>auto current = _next;
  circular_increment(_next);
  is_last = current == last;
  set_intersection((*current)->targets, _targets, _target_intersection);\<close>
\<close>

definition loop_body :: "bool \<Rightarrow> iterator \<Rightarrow> state \<Rightarrow> error + flow \<times> state" where
  "loop_body ndebug last_it s =
     (let current = q_next (queue s) in
      case circular_increment ndebug (queue s) (q_next (queue s)) of
        Inl err \<Rightarrow> Inl err
      | Inr nxt \<Rightarrow>
          let s1 = s\<lparr>queue := (queue s)\<lparr>q_next := nxt\<rparr>\<rparr>;
              is_last = (current = last_it)
          in case current of
               None \<Rightarrow> Inl UndefinedBehaviour
             | Some c \<Rightarrow>
                 (case list_deref c (q_messages (queue s1)) of
                    None \<Rightarrow> Inl UndefinedBehaviour
                  | Some p \<Rightarrow>
                      encode_current ndebug c p is_last
                        (s1\<lparr>queue := (queue s1)\<lparr>q_target_intersection :=
                           set_intersection (targets (heap s1 p)) (q_targets (queue s1))\<rparr>\<rparr>)))"

text \<open>
  The loop \<^verbatim>\<open>while (true) { ... }\<close>. It ends: a pass that does not leave the loop either
  erases a node or moves the write cursor of the encoder towards the end of its buffer.
\<close>

function encode_loop :: "bool \<Rightarrow> iterator \<Rightarrow> state \<Rightarrow> error + state" where
  "encode_loop ndebug last_it s =
     (case loop_body ndebug last_it s of
        Inl err \<Rightarrow> Inl err
      | Inr (Break, s') \<Rightarrow> Inr s'
      | Inr (Continue, s') \<Rightarrow> encode_loop ndebug last_it s')"
  by pat_completeness auto
termination
proof (relation "measure (\<lambda>(ndebug, last_it, s).
    (current_end (enc s) - current_begin (enc s)) + length (q_messages (queue s)))")
  show "wf (measure (\<lambda>(ndebug, last_it, s).
    (current_end (enc s) - current_begin (enc s)) + length (q_messages (queue s))))"
    by simp
next
  fix ndebug :: bool and last_it :: iterator and s s' :: state and r :: "flow \<times> state" and f :: flow
  assume body: "loop_body ndebug last_it s = Inr r" and r: "(f, s') = r" and f: "f = Continue"
  let ?room = "\<lambda>e. current_end e - current_begin e"
  have put: "current_end (fst (put_raw bs em)) = current_end (fst em)
      \<and> current_begin (fst em) \<le> current_begin (fst (put_raw bs em))
      \<and> (was_error (fst em) \<longrightarrow> was_error (fst (put_raw bs em)))
      \<and> (\<not> was_error (fst (put_raw bs em)) \<longrightarrow>
            current_begin (fst (put_raw bs em)) = current_begin (fst em) + length bs
            \<and> length bs \<le> current_end (fst em) - current_begin (fst em))" for bs em
    by (cases em) (auto simp add: put_raw_def)
  have puts: "current_end (fst (fold put_uuid ts em)) = current_end (fst em)
      \<and> current_begin (fst em) \<le> current_begin (fst (fold put_uuid ts em))
      \<and> (was_error (fst em) \<longrightarrow> was_error (fst (fold put_uuid ts em)))" for ts em
  proof (induction ts arbitrary: em)
    case Nil
    show ?case using put [of "[]" em] by (auto simp add: put_raw_def split: prod.splits)
  next
    case (Cons t ts)
    show ?case
      using Cons [of "put_uuid t em"] put [of "uuid_bytes t" em]
      by (auto simp add: put_uuid_def)
  qed
  have enc: "?room e' < ?room e"
    if "try_encode ndebug (e, m) ti msg = Inr (True, e', m')" for e m ti msg e' m'
  proof -
    define em1 where "em1 = put_uuid (source msg) (e, m)"
    from that obtain em2 where em2: "encode_targets ndebug em1 ti = Inr em2"
      and res: "put_raw (bytes msg) em2 = (e', m')" and ok: "\<not> was_error e'"
      by (auto simp add: try_encode_def encode_def em1_def Let_def
          split: sum.splits prod.splits if_splits)
    have 3: "\<not> was_error (fst em2)" "current_end e' = current_end (fst em2)"
      "current_begin (fst em2) \<le> current_begin e'"
      using put [of "bytes msg" em2] ok by (simp_all add: res)
    have 2: "\<not> was_error (fst em1)" "current_end (fst em2) = current_end (fst em1)"
      "current_begin (fst em1) \<le> current_begin (fst em2)"
      using em2 3(1) puts [of ti "put_u8 (of_nat (length ti)) em1"]
        put [of "[of_nat (length ti)]" em1]
      by (auto simp add: encode_targets_def put_u8_def set_error_def split: if_splits)
    have 1: "current_end (fst em1) = current_end e"
      "current_begin (fst em1) = current_begin e + length (uuid_bytes (source msg))"
      "length (uuid_bytes (source msg)) \<le> current_end e - current_begin e"
      using put [of "uuid_bytes (source msg)" "(e, m)"] 2(1)
      by (simp_all add: em1_def put_uuid_def)
    have "length (uuid_bytes (source msg)) = 16"
      by (simp add: uuid_bytes_def)
    with 1 2 3 show ?thesis
      by simp
  qed
  have era: "length (q_messages q') < length (q_messages q)"
    if "erase c q = Inr q'" for c q q'
  proof -
    from that obtain p where p: "map_of (q_messages q) c = Some p"
      by (auto simp add: erase_def list_deref_def split: option.splits)
    then have "(c, p) \<in> set (q_messages q)"
      by (rule map_of_SomeD)
    then have "length (filter (\<lambda>x. fst x \<noteq> c) (q_messages q)) < length (q_messages q)"
      by (force intro!: length_filter_less)
    moreover have "q_messages q' = list_erase c (q_messages q)"
      using that by (auto simp add: erase_def Let_def split: option.splits if_splits)
    ultimately show ?thesis
      by (simp add: list_erase_def)
  qed
  have erc: "?room (enc t') = ?room (enc t)
      \<and> length (q_messages (queue t')) < length (q_messages (queue t))"
    if "erase_current c fl t = Inr (g, t')" for c fl t g t'
    using that era [of c "queue t"]
    by (auto simp add: erase_current_def split: sum.splits)
  have aft: "?room (enc t') = ?room (enc t)
      \<and> length (q_messages (queue t')) \<le> length (q_messages (queue t))"
    if "after_encode c p il t = Inr (g, t')" for c p il t g t'
    using that
      erc [of c "if il then Break else Continue"
        "t\<lparr>heap := (heap t)(p := (heap t p)\<lparr>targets :=
           fold set_erase (q_targets (queue t)) (targets (heap t p))\<rparr>)\<rparr>" g t']
    by (auto simp add: after_encode_def Let_def split: if_splits)
  from body r f have "?room (enc s') + length (q_messages (queue s'))
      < ?room (enc s) + length (q_messages (queue s))"
    unfolding loop_body_def encode_current_def Let_def
    by (auto split: sum.splits option.splits prod.splits if_splits
        dest!: erc aft enc)
  then show "((ndebug, last_it, s'), (ndebug, last_it, s))
      \<in> measure (\<lambda>(ndebug, last_it, s).
          (current_end (enc s) - current_begin (enc s)) + length (q_messages (queue s)))"
    by simp
qed

declare encode_loop.simps [simp del]

text \<open>
  The local \<^verbatim>\<open>last\<close>: the predecessor of the cursor in circular order.
  \<^verbatim>\<open>auto last = _next;
  if (last == _messages.begin()) { last = --_messages.end(); } else --last;\<close>
\<close>

definition initial_last :: "TransmitQueue \<Rightarrow> error + iterator" where
  "initial_last q =
     (if q_next q = list_begin (q_messages q) then Inr (list_prev None (q_messages q))
      else case q_next q of
             None \<Rightarrow> Inr (list_prev None (q_messages q))
           | Some n \<Rightarrow>
               if list_deref n (q_messages q) = None then Inl UndefinedBehaviour
               else Inr (list_prev (Some n) (q_messages q)))"

text \<open>
  \<^verbatim>\<open>uint16_t encode_few(binary::encoder&)\<close>: the encoder and its buffer are the fields
  \<open>enc\<close> and \<open>mem\<close> of the state given, and the value returned is the field \<open>count\<close> of
  the state that results.
\<close>

definition encode_few :: "bool \<Rightarrow> state \<Rightarrow> error + state" where
  "encode_few ndebug s0 =
     (let s = s0\<lparr>count := 0\<rparr> in
      if q_messages (queue s) = [] then Inr s
      else case initial_last (queue s) of
             Inl err \<Rightarrow> Inl err
           | Inr last_it \<Rightarrow> encode_loop ndebug last_it s)"

text \<open>
  A history of one queue: calls of \<^verbatim>\<open>encode_few\<close>, each with the encoder of a new
  datagram, and between them insertions of messages and additions of targets to the link.
\<close>

datatype call = EncodeFew encoder memory | InsertMessage msg_ptr | AddTarget uuid

fun run_calls :: "bool \<Rightarrow> call list \<Rightarrow> state \<Rightarrow> error + state" where
  "run_calls ndebug [] s = Inr s"
| "run_calls ndebug (EncodeFew e m # cs) s =
     (case encode_few ndebug (s\<lparr>enc := e, mem := m\<rparr>) of
        Inl err \<Rightarrow> Inl err
      | Inr s' \<Rightarrow> run_calls ndebug cs s')"
| "run_calls ndebug (InsertMessage p # cs) s =
     run_calls ndebug cs (s\<lparr>queue := insert_message p (queue s)\<rparr>)"
| "run_calls ndebug (AddTarget t # cs) s =
     run_calls ndebug cs (s\<lparr>queue := add_target t (queue s)\<rparr>)"

subsection \<open>Invariants\<close>

text \<open>The identities of the nodes of a list.\<close>

definition nodes :: "Messages \<Rightarrow> node set" where
  "nodes xs = fst ` set xs"

text \<open>
  The invariant stated in the class:
  \<^verbatim>\<open>_messages.empty() <=> _next == _messages.end()\<close>.
\<close>

definition cursor_invariant :: "TransmitQueue \<Rightarrow> bool" where
  "cursor_invariant q \<longleftrightarrow> (q_messages q = [] \<longleftrightarrow> q_next q = None)"

text \<open>
  Validity of the iterators: the nodes of the list are distinct and were allocated before,
  and the cursor, when it is not the end, points to a node of the list.
\<close>

definition well_formed :: "TransmitQueue \<Rightarrow> bool" where
  "well_formed q \<longleftrightarrow>
     distinct (map fst (q_messages q))
     \<and> (\<forall>n\<in>nodes (q_messages q). n < q_alloc q)
     \<and> (\<forall>n. q_next q = Some n \<longrightarrow> n \<in> nodes (q_messages q))"

text \<open>
  The invariant behind the single transmission of unreliable messages: an unreliable
  message occurs at most once among the messages encoded so far, and once it occurs it
  has no target of the link left.
\<close>

definition sent_once :: "state \<Rightarrow> bool" where
  "sent_once s \<longleftrightarrow>
     (\<forall>p. \<not> is_reliable (heap s p) \<longrightarrow>
        count_list (map fst (encoded s)) p \<le> 1
        \<and> (p \<in> fst ` set (encoded s) \<longrightarrow>
             set (targets (heap s p)) \<inter> set (q_targets (queue s)) = {}))"

text \<open>
  The records of the log written for the message \<open>p\<close> that name the target \<open>t\<close>.
\<close>

definition records_to :: "msg_ptr \<Rightarrow> uuid \<Rightarrow> state \<Rightarrow> (msg_ptr \<times> uuid list) list" where
  "records_to p t s = filter (\<lambda>e. fst e = p \<and> t \<in> set (snd e)) (encoded s)"

text \<open>
  The invariant behind the single transmission to each target: at most one record of an
  unreliable message names a given target, and none does while the target is still in
  the target set of the message.
\<close>

definition sent_disjoint :: "state \<Rightarrow> bool" where
  "sent_disjoint s \<longleftrightarrow>
     (\<forall>p t. \<not> is_reliable (heap s p) \<longrightarrow>
        length (records_to p t s) \<le> 1
        \<and> (t \<in> set (targets (heap s p)) \<longrightarrow> records_to p t s = []))"

text \<open>
  An unreliable message that has been encoded and has no target left was handed to
  \<^verbatim>\<open>release\<close>.
\<close>

definition released_when_done :: "state \<Rightarrow> bool" where
  "released_when_done s \<longleftrightarrow>
     (\<forall>p. \<not> is_reliable (heap s p) \<and> p \<in> fst ` set (encoded s) \<and> targets (heap s p) = []
        \<longrightarrow> p \<in> set (q_released (queue s)))"

text \<open>
  At most one node of the list holds the unreliable message \<open>p\<close>, and none does once
  \<open>p\<close> has been encoded and has no target left.
\<close>

definition erased_when_done :: "msg_ptr \<Rightarrow> state \<Rightarrow> bool" where
  "erased_when_done p s \<longleftrightarrow>
     \<not> is_reliable (heap s p)
     \<and> count_list (map snd (q_messages (queue s))) p \<le> 1
     \<and> (p \<in> fst ` set (encoded s) \<and> targets (heap s p) = []
          \<longrightarrow> p \<notin> snd ` set (q_messages (queue s)))"


subsection \<open>Example states\<close>

text \<open>
  States for the examples: a link with the single target 1 and a queue of two messages,
  the message at address 0 at the cursor, the one at address 1 before it; an encoder with
  \<open>room\<close> free bytes. The messages are a reliable message for peer 1, a message whose
  only target is the foreign peer 2, and an unreliable message for peers 1 and 2.
\<close>

definition example_reliable :: Message where
  "example_reliable = \<lparr>source = 7, targets = [1], bytes = [], is_reliable = True\<rparr>"

definition example_acked :: Message where
  "example_acked = \<lparr>source = 7, targets = [2], bytes = [], is_reliable = True\<rparr>"

definition example_unreliable :: Message where
  "example_unreliable = \<lparr>source = 7, targets = [1, 2], bytes = [], is_reliable = False\<rparr>"

definition example_encoder :: "nat \<Rightarrow> encoder" where
  "example_encoder room = \<lparr>current_begin = 0, current_end = room, was_error = False\<rparr>"

definition example_state :: "Message \<Rightarrow> Message \<Rightarrow> nat \<Rightarrow> state" where
  "example_state m0 m1 room =
     \<lparr>queue = insert_message 1 (insert_message 0 (add_target 1 TransmitQueue_init)),
      heap = (\<lambda>_. m0)(1 := m1), enc = example_encoder room, mem = (\<lambda>_. 0),
      count = 0, encoded = []\<rparr>"

section \<open>Properties of the AckSet\<close>

subsection \<open>Modular comparison and bit operations\<close>

lemma stb31:
  assumes "0 \<le> k" "k < 4294967296"
  shows "signed_take_bit 31 (k::int) = (if k < 2147483648 then k else k - 4294967296)"
proof (cases "k < 2147483648")
  case True
  with assms show ?thesis
    by (simp add: signed_take_bit_eq_take_bit_shift take_bit_eq_mod)
next
  case False
  have e: "k + 2147483648 = (k - 2147483648) + 4294967296"
    by simp
  have "(k + 2147483648) mod 4294967296 = (k - 2147483648) mod 4294967296"
    by (subst e) (rule mod_add_self2)
  also have "\<dots> = k - 2147483648"
    using False assms by (simp add: mod_pos_pos_trivial)
  finally show ?thesis
    using False by (simp add: signed_take_bit_eq_take_bit_shift take_bit_eq_mod)
qed

lemma sint32_cases:
  "sint (w :: 32 word) = (if uint w < 2147483648 then uint w else uint w - 4294967296)"
proof -
  have b: "0 \<le> uint w" "uint w < 4294967296"
    using uint_lt2p [of w] by simp_all
  show ?thesis
    using stb31 [OF b] by (simp add: sint_uint)
qed

lemma sn_less_unat: "sn_less a b \<longleftrightarrow> 0 < unat (b - a) \<and> unat (b - a) < 2147483648"
proof -
  define k where "k = uint (b - a)"
  have "0 \<le> k" "k < 4294967296" using uint_lt2p [of "b - a"] by (simp_all add: k_def)
  moreover have "unat (b - a) = nat k" by (simp add: k_def)
  ultimately show ?thesis
    unfolding sn_less_def sint32_cases k_def [symmetric]
    by (simp only: split: if_splits) linarith
qed

lemma pred_test_bit: "pred_test p k \<longleftrightarrow> k < 31 \<and> bit p k"
  unfolding pred_test_def
  by (auto simp add: and_exp_eq_0_iff_not_bit bit_ucast_iff dest: bit_imp_le_length)

lemma bit_pred_set: "bit (pred_set p k) n \<longleftrightarrow> bit p n \<or> (n = k \<and> k < 31)"
  unfolding pred_set_def
  by (auto simp add: bit_simps dest: bit_imp_le_length)

lemma bit_pred_shl: "bit (pred_shl p k) n \<longleftrightarrow> n < 31 \<and> k \<le> n \<and> bit p (n - k)"
  unfolding pred_shl_def
  by (auto simp add: bit_simps dest: bit_imp_le_length)

lemma unat_succ_less:
  fixes i s :: "32 word"
  assumes "i < s"
  shows "unat (i + 1) = unat i + 1"
  using assms by unat_arith

lemma word_le_step:
  fixes i j s :: "32 word"
  assumes "i < s"
  shows "i \<le> j \<longleftrightarrow> j = i \<or> i + 1 \<le> j"
proof -
  have "i \<le> j \<longleftrightarrow> unat i \<le> unat j"
    by (rule word_le_nat_alt)
  moreover have "j = i \<longleftrightarrow> unat j = unat i"
    by (rule word_unat_eq_iff)
  moreover have "i + 1 \<le> j \<longleftrightarrow> unat i + 1 \<le> unat j"
    by (simp only: word_le_nat_alt unat_succ_less [OF assms])
  ultimately show ?thesis
    by arith
qed


lemma all_from_step:
  fixes i s :: "32 word"
  assumes "i < s"
  shows "(\<forall>j. i \<le> j \<and> j < s \<longrightarrow> Q j) \<longleftrightarrow> Q i \<and> (\<forall>j. i + 1 \<le> j \<and> j < s \<longrightarrow> Q j)"
proof -
  have step: "i \<le> j \<longleftrightarrow> j = i \<or> i + 1 \<le> j" for j
    by (rule word_le_step [OF assms])
  show ?thesis
  proof (intro iffI conjI allI impI)
    assume "\<forall>j. i \<le> j \<and> j < s \<longrightarrow> Q j"
    then show "Q i" using assms by simp
  next
    fix j
    assume "\<forall>j. i \<le> j \<and> j < s \<longrightarrow> Q j" and "i + 1 \<le> j \<and> j < s"
    then show "Q j" using step [of j] by simp
  next
    fix j
    assume "Q i \<and> (\<forall>j. i + 1 \<le> j \<and> j < s \<longrightarrow> Q j)" and "i \<le> j \<and> j < s"
    then show "Q j" using step [of j] by auto
  qed
qed

lemma shift_guard_iff:
  "shift_guard a hsn shift i \<longleftrightarrow>
     (\<forall>j. i \<le> j \<and> j < shift \<longrightarrow>
        sn_less hsn (lowest_sequence_number a + 31 - j)
        \<or> pred_test (predecessors a) (unat (30 - j)))"
proof (induction a hsn shift i rule: shift_guard.induct)
  case (1 a hsn shift i)
  define ok where "ok = (\<lambda>j. sn_less hsn (lowest_sequence_number a + 31 - j)
        \<or> pred_test (predecessors a) (unat (30 - j)))"
  have unfold: "shift_guard a hsn shift i
      = (if i < shift then (if \<not> ok i then False else shift_guard a hsn shift (i + 1)) else True)"
    unfolding ok_def by (rule shift_guard.simps)
  have IH: "i < shift \<Longrightarrow> ok i \<Longrightarrow> shift_guard a hsn shift (i + 1)
          \<longleftrightarrow> (\<forall>j. i + 1 \<le> j \<and> j < shift \<longrightarrow> ok j)"
    using 1 unfolding ok_def by blast
  have "shift_guard a hsn shift i \<longleftrightarrow> (\<forall>j. i \<le> j \<and> j < shift \<longrightarrow> ok j)"
  proof (cases "i < shift")
    case True
    show ?thesis
      unfolding all_from_step [OF True] unfold using True IH by auto
  next
    case False
    have "ok j" if "i \<le> j \<and> j < shift" for j
    proof -
      from that have "i < shift" by (simp only: le_less_trans [of i j shift])
      with False show ?thesis by simp
    qed
    with False show ?thesis
      unfolding unfold by simp
  qed
  then show ?case
    unfolding ok_def .
qed

subsection \<open>The traversal\<close>

lemma increment_first:
  "pos < 32 \<Longrightarrow>
   increment a pos = hd (filter (\<lambda>q. bit (predecessors a) (q - 1)) [Suc pos..<32] @ [32])"
proof (induction a pos rule: increment.induct)
  case (1 a pos)
  show ?case
  proof (cases "pos < 31")
    case True
    then have u: "[Suc pos..<32] = Suc pos # [Suc (Suc pos)..<32]"
      by (simp add: upt_conv_Cons)
    show ?thesis
      using True 1
      by (subst increment.simps) (simp add: u pred_test_bit)
  next
    case False
    with 1 have "pos = 31" by simp
    then show ?thesis
      by (subst increment.simps) (simp add: pred_test_bit increment.simps [of a 32])
  qed
qed

lemma iterate_from_first:
  assumes "\<not> is_empty a"
  shows "pos \<le> 32 \<Longrightarrow>
    iterate_from a (hd (filter (\<lambda>q. bit (predecessors a) (q - 1)) [pos..<32] @ [32]))
    = Some (map (\<lambda>q. highest_sequence_number a - of_nat q)
         (filter (\<lambda>q. bit (predecessors a) (q - 1)) [pos..<32]))"
proof (induction "32 - pos" arbitrary: pos)
  case 0
  then show ?case
    by (simp add: iterate_from.simps ackset_end_def)
next
  case (Suc k)
  then have lt: "pos < 32" and IH: "iterate_from a (hd (filter (\<lambda>q. bit (predecessors a) (q - 1)) [Suc pos..<32] @ [32]))
    = Some (map (\<lambda>q. highest_sequence_number a - of_nat q)
         (filter (\<lambda>q. bit (predecessors a) (q - 1)) [Suc pos..<32]))"
    by simp_all
  have u: "[pos..<32] = pos # [Suc pos..<32]"
    using lt by (simp add: upt_conv_Cons)
  show ?case
  proof (cases "bit (predecessors a) (pos - 1)")
    case True
    show ?thesis
      using True lt assms IH
      by (simp add: u iterate_from.simps [of a pos] ackset_end_def deref_def increment_first)
  next
    case False
    then show ?thesis
      using IH by (simp add: u)
  qed
qed

lemma iterate_nonempty:
  assumes "\<not> is_empty a"
  shows "iterate a = Some (map (\<lambda>q. highest_sequence_number a - of_nat q)
         (0 # filter (\<lambda>q. bit (predecessors a) (q - 1)) [1..<32]))"
  using assms iterate_from_first [OF assms, of 1]
  by (simp add: iterate_def ackset_begin_def iterate_from.simps [of a 0] ackset_end_def
      deref_def increment_first)

lemma iterate_empty: "is_empty a \<Longrightarrow> iterate a = Some []"
  by (simp add: iterate_def ackset_begin_def iterate_from.simps)

subsection \<open>The branches of \<^verbatim>\<open>try_add\<close>\<close>

lemma win_diff:
  fixes x y b :: "32 word"
  shows "unat (y - x) = (if unat (x - b) \<le> unat (y - b) then unat (y - b) - unat (x - b)
      else unat (y - b) + 4294967296 - unat (x - b))"
proof -
  define p q where "p = x - b" and "q = y - b"
  have "y - x = q - p" by (simp add: p_def q_def)
  then show ?thesis
    unfolding p_def [symmetric] q_def [symmetric]
    by (simp only: unat_sub_if') simp
qed

lemma sn_less_window:
  assumes "unat (x - b) \<le> 31" "unat (y - b) \<le> 31"
  shows "sn_less x y \<longleftrightarrow> unat (x - b) < unat (y - b)"
proof -
  define p q where "p = unat (x - b)" and "q = unat (y - b)"
  have pq: "p \<le> 31" "q \<le> 31" using assms by (simp_all add: p_def q_def)
  have d: "unat (y - x) = (if p \<le> q then q - p else q + 4294967296 - p)"
    unfolding p_def q_def by (rule win_diff)
  show ?thesis
    unfolding sn_less_unat d p_def [symmetric] q_def [symmetric]
    using pq by auto
qed

lemma unat_sub_const:
  fixes d :: "32 word"
  assumes "k < 4294967296"
  shows "unat (d - of_nat k) = (if k \<le> unat d then unat d - k else unat d + 4294967296 - k)"
proof -
  have "unat (of_nat k :: 32 word) = k"
    using assms by (simp add: unat_of_nat take_bit_nat_eq_self)
  then show ?thesis
    using unat_sub_if' [of d "of_nat k"] by simp
qed

lemma sn_less_irrefl [simp]: "\<not> sn_less x x"
  by (simp add: sn_less_def)

lemma sn_less_asym: "sn_less x y \<Longrightarrow> \<not> sn_less y x"
proof -
  have "unat (x - y) = (if unat (y - x) = 0 then 0 else 4294967296 - unat (y - x))"
    using win_diff [of x y x] by simp
  then show "sn_less x y \<Longrightarrow> \<not> sn_less y x"
    unfolding sn_less_unat by (auto split: if_splits)
qed

lemma unat_sub_small:
  fixes d :: "32 word"
  assumes "k \<le> unat d" "k < 4294967296"
  shows "unat (d - of_nat k) = unat d - k"
  using assms by (simp add: unat_sub_const)

lemma unat_sub_31:
  "unat (d - 31 :: 32 word) = (if 31 \<le> unat d then unat d - 31 else unat d + 4294967265)"
  using unat_sub_const [of 31 d] by simp

lemma below_floor_iff:
  assumes "sn_less sn h"
  shows "sn_less sn (h - 31) \<longleftrightarrow> 31 < unat (h - sn)"
proof -
  define d where "d = unat (h - sn)"
  have d: "0 < d" "d < 2147483648"
    using assms by (simp_all add: sn_less_unat d_def)
  have "h - 31 - sn = (h - sn) - 31" by simp
  then have "unat (h - 31 - sn) = (if 31 \<le> d then d - 31 else d + 4294967265)"
    unfolding d_def by (simp only: unat_sub_31)
  then show ?thesis
    unfolding sn_less_unat d_def [symmetric] using d by auto
qed

lemma above_window_iff:
  assumes "sn_less h sn"
  shows "sn_less (h + 31) sn \<longleftrightarrow> 31 < unat (sn - h)"
proof -
  define d where "d = unat (sn - h)"
  have d: "0 < d" "d < 2147483648"
    using assms by (simp_all add: sn_less_unat d_def)
  have "sn - (h + 31) = (sn - h) - 31" by simp
  then have "unat (sn - (h + 31)) = (if 31 \<le> d then d - 31 else d + 4294967265)"
    unfolding d_def by (simp only: unat_sub_31)
  then show ?thesis
    unfolding sn_less_unat d_def [symmetric] using d by auto
qed

text \<open>
  In the branch of \<^verbatim>\<open>try_add\<close> that advances the highest value, the shift is between
  1 and 31.
\<close>

lemma advance_shift_range:
  assumes "new_sn \<noteq> hsn" "\<not> sn_less new_sn hsn" "\<not> sn_less (hsn + 31) new_sn"
  shows "1 \<le> unat (new_sn - hsn) \<and> unat (new_sn - hsn) \<le> 31"
proof -
  define d where "d = unat (new_sn - hsn)"
  have pos: "0 < d"
    using assms(1) by (simp add: d_def unat_gt_0)
  have "unat (new_sn - hsn) < 2 ^ LENGTH(32)"
    by (rule unsigned_less)
  then have bound: "d < 4294967296"
    by (simp add: d_def)
  have rev_d: "unat (hsn - new_sn) = 4294967296 - d"
    using win_diff [of hsn new_sn hsn] pos by (simp add: d_def)
  have "new_sn - (hsn + 31) = (new_sn - hsn) - 31"
    by simp
  then have fwd: "unat (new_sn - (hsn + 31)) = (if 31 \<le> d then d - 31 else d + 4294967265)"
    unfolding d_def by (simp only: unat_sub_31)
  from assms(2) rev_d pos bound have "d \<le> 2147483648"
    by (simp add: sn_less_unat)
  with assms(3) fwd pos show ?thesis
    unfolding d_def [symmetric] by (auto simp add: sn_less_unat split: if_splits)
qed

lemma try_add_empty:
  "is_empty a \<Longrightarrow> try_add sn a =
     (True, a\<lparr>highest_sequence_number := sn, lowest_sequence_number := sn,
              is_empty := False, predecessors := 0\<rparr>)"
  by (simp add: try_add_def)

lemma try_add_same:
  "\<not> is_empty a \<Longrightarrow> try_add (highest_sequence_number a) a = (True, a)"
  by (simp add: try_add_def)

lemma try_add_below_far:
  assumes "\<not> is_empty a" "sn_less sn (highest_sequence_number a)"
    "31 < unat (highest_sequence_number a - sn)"
  shows "try_add sn a = (True, a)"
  using assms by (auto simp add: try_add_def Let_def below_floor_iff)

lemma try_add_below_near:
  assumes "\<not> is_empty a" "sn_less sn (highest_sequence_number a)"
    "unat (highest_sequence_number a - sn) \<le> 31"
  shows "try_add sn a =
    (True, a\<lparr>predecessors := pred_set (predecessors a) (unat (highest_sequence_number a - sn) - 1)\<rparr>)"
proof -
  have "sn \<noteq> highest_sequence_number a"
    using assms(2) by auto
  moreover have "unat (highest_sequence_number a - sn - 1) = unat (highest_sequence_number a - sn) - 1"
    using assms(2) unat_sub_small [of 1 "highest_sequence_number a - sn"]
    by (simp add: sn_less_unat)
  ultimately show ?thesis
    using assms by (simp add: try_add_def Let_def below_floor_iff)
qed

lemma try_add_above_far:
  assumes "\<not> is_empty a" "sn_less (highest_sequence_number a) sn"
    "31 < unat (sn - highest_sequence_number a)"
  shows "try_add sn a = (False, a)"
proof -
  have "sn \<noteq> highest_sequence_number a" "\<not> sn_less sn (highest_sequence_number a)"
    using assms(2) sn_less_asym by auto
  then show ?thesis
    using assms by (simp add: try_add_def Let_def above_window_iff)
qed

lemma try_add_above_near:
  assumes "\<not> is_empty a" "sn_less (highest_sequence_number a) sn"
    "unat (sn - highest_sequence_number a) \<le> 31"
  shows "try_add sn a =
    (if shift_guard a (highest_sequence_number a) (sn - highest_sequence_number a) 0
     then (True, a\<lparr>predecessors :=
                      pred_set (pred_shl (predecessors a) (unat (sn - highest_sequence_number a)))
                        (unat (sn - highest_sequence_number a) - 1),
                    highest_sequence_number := sn\<rparr>)
     else (False, a))"
proof -
  have "sn \<noteq> highest_sequence_number a" "\<not> sn_less sn (highest_sequence_number a)"
    using assms(2) sn_less_asym by auto
  moreover have "unat (sn - highest_sequence_number a - 1) = unat (sn - highest_sequence_number a) - 1"
    using assms(2) unat_sub_small [of 1 "sn - highest_sequence_number a"]
    by (simp add: sn_less_unat)
  moreover have "a\<lparr>is_empty := False\<rparr> = a"
    using assms(1) by simp
  ultimately show ?thesis
    using assms by (simp add: try_add_def Let_def above_window_iff)
qed

lemma try_add_false_unchanged:
  "fst (try_add sn a) = False \<Longrightarrow> snd (try_add sn a) = a"
  by (simp add: try_add_def Let_def split: if_splits)

lemma pred_set_idem: "pred_set (pred_set p k) k = pred_set p k"
  by (rule bit_eqI) (auto simp add: bit_pred_set)

lemma try_add_twice:
  assumes "fst (try_add sn a)"
  shows "try_add sn (snd (try_add sn a)) = (True, snd (try_add sn a))"
  using assms
  by (simp add: try_add_def Let_def pred_set_idem split: if_splits)

lemma unat_of_nat_small: "q < 4294967296 \<Longrightarrow> unat (of_nat q :: 32 word) = q"
  by (simp add: unat_of_nat take_bit_nat_eq_self)

lemma sn_less_positions:
  assumes "q < q'" "q' < 32"
  shows "sn_less (h - of_nat q') (h - of_nat q)"
proof -
  have "h - of_nat q - (h - of_nat q') = (of_nat (q' - q) :: 32 word)"
    using assms by (simp add: of_nat_diff)
  moreover have "unat (of_nat (q' - q) :: 32 word) = q' - q"
    by (rule unat_of_nat_small) (use assms in simp)
  ultimately have "unat (h - of_nat q - (h - of_nat q')) = q' - q"
    by (simp only:)
  then show ?thesis
    using assms by (simp only: sn_less_unat) simp
qed

lemma iterate_decreasing:
  assumes "iterate a = Some xs"
  shows "sorted_wrt (\<lambda>x y. sn_less y x) xs"
proof (cases "is_empty a")
  case True
  with assms show ?thesis by (simp add: iterate_empty)
next
  case False
  let ?ps = "0 # filter (\<lambda>q. bit (predecessors a) (q - 1)) [1..<32]"
  have inc: "sorted_wrt (<) ?ps"
    by (auto simp add: sorted_wrt_filter)
  have "sorted_wrt (\<lambda>q q'. sn_less (highest_sequence_number a - of_nat q')
      (highest_sequence_number a - of_nat q)) ?ps"
  proof (rule sorted_wrt_mono_rel [OF _ inc])
    fix q q'
    assume "q \<in> set ?ps" "q' \<in> set ?ps" "q < q'"
    moreover from this have "q' < 32" by auto
    ultimately show "sn_less (highest_sequence_number a - of_nat q')
      (highest_sequence_number a - of_nat q)"
      by (simp only: sn_less_positions)
  qed
  then have "sorted_wrt (\<lambda>x y. sn_less y x)
      (map (\<lambda>q. highest_sequence_number a - of_nat q) ?ps)"
    by (simp only: sorted_wrt_map)
  with assms False show ?thesis
    by (simp add: iterate_nonempty)
qed

lemma iterate_set:
  assumes "\<not> is_empty a"
  shows "\<exists>xs. iterate a = Some xs \<and>
    set xs = insert (highest_sequence_number a)
      {highest_sequence_number a - of_nat (Suc i) | i. i < 31 \<and> bit (predecessors a) i}"
proof -
  have "(\<lambda>q. highest_sequence_number a - of_nat q) ` {q. 1 \<le> q \<and> q < 32 \<and> bit (predecessors a) (q - 1)}
      = {highest_sequence_number a - of_nat (Suc i) | i. i < 31 \<and> bit (predecessors a) i}"
    (is "?L = ?R")
  proof (intro set_eqI iffI)
    fix x assume "x \<in> ?L"
    then obtain q where q: "1 \<le> q" "q < 32" "bit (predecessors a) (q - 1)"
      "x = highest_sequence_number a - of_nat q" by auto
    then have "q - 1 < 31 \<and> bit (predecessors a) (q - 1) \<and> x = highest_sequence_number a - of_nat (Suc (q - 1))"
      by simp
    then show "x \<in> ?R" by blast
  next
    fix x assume "x \<in> ?R"
    then obtain i where "i < 31" "bit (predecessors a) i" "x = highest_sequence_number a - of_nat (Suc i)"
      by auto
    then have "1 \<le> Suc i \<and> Suc i < 32 \<and> bit (predecessors a) (Suc i - 1) \<and> x = highest_sequence_number a - of_nat (Suc i)"
      by simp
    then show "x \<in> ?L" by blast
  qed
  then show ?thesis
    using assms by (simp add: iterate_nonempty) 
qed

subsection \<open>Claims about \<^verbatim>\<open>try_add\<close>\<close>

lemma unat_30_minus:
  fixes j :: "32 word"
  assumes "unat j \<le> 30"
  shows "unat (30 - j) = 30 - unat j"
  using assms unat_sub_if' [of 30 j] by simp

lemma shift_guard_nat:
  assumes "unat shift \<le> 31"
  shows "shift_guard a hsn shift 0 \<longleftrightarrow>
    (\<forall>i<unat shift. sn_less hsn (lowest_sequence_number a + 31 - of_nat i)
        \<or> bit (predecessors a) (30 - i))"
proof -
  let ?Q = "\<lambda>j :: 32 word. sn_less hsn (lowest_sequence_number a + 31 - j)
        \<or> pred_test (predecessors a) (unat (30 - j))"
  let ?R = "\<lambda>i :: nat. sn_less hsn (lowest_sequence_number a + 31 - of_nat i)
        \<or> bit (predecessors a) (30 - i)"
  have QR: "?Q j \<longleftrightarrow> ?R (unat j)" if "j < shift" for j
  proof -
    from that assms have "unat j \<le> 30"
      by (simp add: word_less_nat_alt)
    then show ?thesis
      by (auto simp add: unat_30_minus pred_test_bit)
  qed
  have "(\<forall>j. 0 \<le> j \<and> j < shift \<longrightarrow> ?Q j) \<longleftrightarrow> (\<forall>i<unat shift. ?R i)"
  proof (intro iffI allI impI)
    fix i assume a: "\<forall>j. 0 \<le> j \<and> j < shift \<longrightarrow> ?Q j" and i: "i < unat shift"
    then have u: "unat (of_nat i :: 32 word) = i"
      using assms by (simp add: unat_of_nat_small)
    then have "(of_nat i :: 32 word) < shift"
      using i by (simp add: word_less_nat_alt)
    with a QR [of "of_nat i"] u show "?R i"
      by simp
  next
    fix j assume a: "\<forall>i<unat shift. ?R i" and j: "0 \<le> j \<and> j < shift"
    then have "unat j < unat shift"
      by (simp add: word_less_nat_alt)
    with a have "?R (unat j)"
      by blast
    with QR [of j] j show "?Q j"
      by simp
  qed
  then show ?thesis
    by (simp only: shift_guard_iff)
qed

text \<open>
  C6: for a non-empty AckSet with highest value \<open>h\<close>, \<open>try_add sn\<close> with \<open>sn\<close> above
  \<open>h\<close> and \<open>sn - h > 31\<close> returns false; and whenever \<open>try_add\<close> returns false, the
  AckSet (all four fields) is what it was before the call.
\<close>

theorem try_add_refuses_beyond_window:
  "(\<not> is_empty a \<and> sn_less (highest_sequence_number a) sn
      \<and> 31 < unat (sn - highest_sequence_number a) \<longrightarrow> fst (try_add sn a) = False)
   \<and> (fst (try_add sn a) = False \<longrightarrow> snd (try_add sn a) = a)"
  by (simp add: try_add_above_far try_add_false_unchanged)

theorem try_add_refuses_beyond_window_witness:
  "fst (try_add 40 (snd (try_add 5 (AckSet_init 0 0)))) = False
   \<and> snd (try_add 40 (snd (try_add 5 (AckSet_init 0 0)))) = snd (try_add 5 (AckSet_init 0 0))"
proof -
  have "\<not> is_empty (snd (try_add 5 (AckSet_init 0 0)))"
    and "highest_sequence_number (snd (try_add 5 (AckSet_init 0 0))) = 5"
    by (simp_all add: try_add_def AckSet_init_def)
  moreover have "sn_less 5 40" "31 < unat (40 - 5 :: 32 word)"
    by (simp_all add: sn_less_unat)
  ultimately show ?thesis
    using try_add_refuses_beyond_window [of "snd (try_add 5 (AckSet_init 0 0))" 40]
    by simp
qed

text \<open>
  C10: \<open>try_add\<close> is idempotent on success: if \<open>try_add sn\<close> returns true, a repeated
  \<open>try_add sn\<close> returns true and leaves the AckSet as the first call left it.
\<close>

theorem try_add_idempotent:
  "fst (try_add sn a) \<Longrightarrow> try_add sn (snd (try_add sn a)) = (True, snd (try_add sn a))"
  by (rule try_add_twice)

theorem try_add_idempotent_witness:
  "fst (try_add 7 (snd (try_add 9 (AckSet_init 0 0))))
   \<and> try_add 7 (snd (try_add 7 (snd (try_add 9 (AckSet_init 0 0)))))
       = (True, snd (try_add 7 (snd (try_add 9 (AckSet_init 0 0)))))"
proof -
  have "fst (try_add 7 (snd (try_add 9 (AckSet_init 0 0))))"
    by (simp add: try_add_def AckSet_init_def Let_def sn_less_unat)
  then show ?thesis
    using try_add_idempotent [of 7 "snd (try_add 9 (AckSet_init 0 0))"] by simp
qed

lemma pred_ops_eq:
  "pred_shl p s = push_bit s p"
  "pred_set p k = set_bit k p"
  by (rule bit_eqI; auto simp add: bit_pred_set bit_pred_shl bit_simps dest: bit_imp_le_length)+

lemma image_insert_index:
  "k < n \<Longrightarrow> {f i | i. i < n \<and> (A i \<or> i = k)} = insert (f k) {f i | i. i < (n::nat) \<and> A i}"
  by auto

lemma iterate_after_set_bit:
  assumes "\<not> is_empty a" "sn_less sn (highest_sequence_number a)"
    "unat (highest_sequence_number a - sn) \<le> 31"
  shows "\<exists>xs ys. iterate a = Some xs
    \<and> iterate (a\<lparr>predecessors := pred_set (predecessors a)
          (unat (highest_sequence_number a - sn) - 1)\<rparr>) = Some ys
    \<and> set ys = insert sn (set xs)"
proof -
  define h where "h = highest_sequence_number a"
  define d where "d = unat (h - sn)"
  define a' where "a' = a\<lparr>predecessors := pred_set (predecessors a) (d - 1)\<rparr>"
  have d: "0 < d" "d \<le> 31"
    using assms by (simp_all add: d_def h_def sn_less_unat)
  have sn: "h - of_nat d = sn"
    by (simp add: d_def)
  obtain xs where xs: "iterate a = Some xs"
    "set xs = insert h {h - of_nat (Suc i) | i. i < 31 \<and> bit (predecessors a) i}"
    using iterate_set [OF assms(1)] unfolding h_def by blast
  have "\<not> is_empty a'" "highest_sequence_number a' = h"
    using assms(1) by (simp_all add: a'_def h_def)
  then obtain ys where ys: "iterate a' = Some ys"
    "set ys = insert h {h - of_nat (Suc i) | i. i < 31 \<and> bit (predecessors a') i}"
    using iterate_set [of a'] by auto
  have bits: "bit (predecessors a') i \<longleftrightarrow> bit (predecessors a) i \<or> i = d - 1" for i
    using d by (auto simp add: a'_def bit_pred_set)
  have "d - 1 < 31"
    using d by simp
  then have "{h - of_nat (Suc i) | i. i < 31 \<and> bit (predecessors a') i}
      = insert (h - of_nat (Suc (d - 1))) {h - of_nat (Suc i) | i. i < 31 \<and> bit (predecessors a) i}"
    unfolding bits by (rule image_insert_index)
  moreover have "h - of_nat (Suc (d - 1)) = sn"
    using d sn by simp
  ultimately have "set ys = insert sn (set xs)"
    unfolding xs ys by auto
  with xs ys show ?thesis
    unfolding a'_def d_def h_def by blast
qed

text \<open>
  C8: for a non-empty AckSet with highest value \<open>h\<close>, \<open>try_add sn\<close> with \<open>sn\<close> equal to or
  below \<open>h\<close> always returns true. If \<open>sn = h\<close> nothing changes; if \<open>h - sn > 31\<close> nothing
  changes; otherwise exactly predecessor bit \<open>h - sn - 1\<close> is set, and the traversal
  afterwards yields the old numbers plus \<open>sn\<close>.
\<close>

theorem try_add_not_above_highest:
  assumes "\<not> is_empty a" and "h = highest_sequence_number a" and "sn = h \<or> sn_less sn h"
  shows "fst (try_add sn a)
    \<and> (sn = h \<longrightarrow> snd (try_add sn a) = a)
    \<and> (31 < unat (h - sn) \<longrightarrow> snd (try_add sn a) = a)
    \<and> (sn \<noteq> h \<and> unat (h - sn) \<le> 31 \<longrightarrow>
          snd (try_add sn a) = a\<lparr>predecessors := set_bit (unat (h - sn - 1)) (predecessors a)\<rparr>
          \<and> (\<exists>xs ys. iterate a = Some xs \<and> iterate (snd (try_add sn a)) = Some ys
                \<and> set ys = insert sn (set xs)))"
proof (cases "sn = h")
  case True
  with assms show ?thesis
    by (simp add: try_add_same)
next
  case False
  with assms have less: "sn_less sn (highest_sequence_number a)"
    by simp
  show ?thesis
  proof (cases "31 < unat (h - sn)")
    case True
    with assms less False show ?thesis
      by (simp add: try_add_below_far)
  next
    case near: False
    then have le: "unat (highest_sequence_number a - sn) \<le> 31"
      using assms by simp
    have "unat (h - sn - 1) = unat (h - sn) - 1"
      using less unat_sub_small [of 1 "h - sn"] assms(2) by (simp add: sn_less_unat)
    then show ?thesis
      using assms(1,2) False near iterate_after_set_bit [OF assms(1) less le]
      by (simp add: try_add_below_near [OF assms(1) less le] pred_ops_eq)
  qed
qed

theorem try_add_not_above_highest_witness:
  "\<not> is_empty (snd (try_add 9 (AckSet_init 0 0)))
   \<and> 9 = highest_sequence_number (snd (try_add 9 (AckSet_init 0 0)))
   \<and> sn_less 7 9 \<and> unat (9 - 7 :: 32 word) \<le> 31
   \<and> fst (try_add 7 (snd (try_add 9 (AckSet_init 0 0))))
   \<and> snd (try_add 7 (snd (try_add 9 (AckSet_init 0 0))))
      = (snd (try_add 9 (AckSet_init 0 0)))
          \<lparr>predecessors := set_bit (unat (9 - 7 - 1 :: 32 word))
             (predecessors (snd (try_add 9 (AckSet_init 0 0))))\<rparr>
   \<and> (\<exists>xs ys. iterate (snd (try_add 9 (AckSet_init 0 0))) = Some xs
         \<and> iterate (snd (try_add 7 (snd (try_add 9 (AckSet_init 0 0))))) = Some ys
         \<and> set ys = insert 7 (set xs))"
proof -
  have h: "\<not> is_empty (snd (try_add 9 (AckSet_init 0 0)))"
    "9 = highest_sequence_number (snd (try_add 9 (AckSet_init 0 0)))"
    by (simp_all add: try_add_def AckSet_init_def)
  have s: "sn_less 7 9" "(7 :: 32 word) \<noteq> 9" "unat (9 - 7 :: 32 word) \<le> 31"
    by (simp_all add: sn_less_unat)
  from s(1) have "(7 :: 32 word) = 9 \<or> sn_less 7 9" ..
  from try_add_not_above_highest [OF h this] h s show ?thesis
    by blast
qed

text \<open>
  C3, as the code has it: for a non-empty AckSet with highest value \<open>h\<close> and
  \<open>h < sn \<le> h + 31\<close>, \<open>try_add sn\<close> returns true, shifts the bitmap left by \<open>sn - h\<close>,
  marks the old highest value at bit \<open>sn - h - 1\<close> and advances the highest value to
  \<open>sn\<close> exactly when the guard of the source holds for every \<open>i < sn - h\<close>:
  \<open>h < lowest + 31 - i\<close> or predecessor bit \<open>30 - i\<close> is set. Otherwise it returns false
  and changes nothing.
\<close>

theorem try_add_advance_guarded:
  assumes "\<not> is_empty a" and "h = highest_sequence_number a"
    and "sn_less h sn" and "unat (sn - h) \<le> 31"
  shows "try_add sn a =
    (if \<forall>i<unat (sn - h). sn_less h (lowest_sequence_number a + 31 - of_nat i)
          \<or> bit (predecessors a) (30 - i)
     then (True, a\<lparr>predecessors :=
                      set_bit (unat (sn - h) - 1) (push_bit (unat (sn - h)) (predecessors a)),
                    highest_sequence_number := sn\<rparr>)
     else (False, a))"
  using assms
  by (simp add: try_add_above_near shift_guard_nat pred_ops_eq)

theorem try_add_advance_guarded_witness:
  "try_add 20 (snd (try_add 9 (AckSet_init 0 0)))
    = (True, (snd (try_add 9 (AckSet_init 0 0)))
         \<lparr>predecessors := set_bit 10 (push_bit 11 0), highest_sequence_number := 20\<rparr>)"
proof -
  have "\<not> is_empty (snd (try_add 9 (AckSet_init 0 0)))"
    and "9 = highest_sequence_number (snd (try_add 9 (AckSet_init 0 0)))"
    and "predecessors (snd (try_add 9 (AckSet_init 0 0))) = 0"
    and "lowest_sequence_number (snd (try_add 9 (AckSet_init 0 0))) = 9"
    by (simp_all add: try_add_def AckSet_init_def)
  moreover have "sn_less 9 20" "unat (20 - 9 :: 32 word) = 11"
    by (simp_all add: sn_less_unat)
  moreover have "sn_less 9 (9 + 31 - of_nat i)" if "i < 11" for i
  proof -
    have "unat (of_nat i :: 32 word) = i"
      using that by (simp add: unat_of_nat_small)
    then have "unat (31 - of_nat i :: 32 word) = 31 - i"
      using that unat_sub_if' [of 31 "of_nat i :: 32 word"] by simp
    then show ?thesis
      using that by (simp add: sn_less_unat)
  qed
  ultimately show ?thesis
    using try_add_advance_guarded [of "snd (try_add 9 (AckSet_init 0 0))" 9 20]
    by simp
qed

theorem try_add_advance_counterexample:
  "\<not> is_empty (snd (add_all [0, 31] (AckSet_init 0 0)))
   \<and> highest_sequence_number (snd (add_all [0, 31] (AckSet_init 0 0))) = 31
   \<and> sn_less 31 33 \<and> unat (33 - 31 :: 32 word) \<le> 31
   \<and> try_add 33 (snd (add_all [0, 31] (AckSet_init 0 0)))
        = (False, snd (add_all [0, 31] (AckSet_init 0 0)))"
  by code_simp

subsection \<open>The window property\<close>

lemma offset_inj: "unat (x - b) = unat (y - b) \<longleftrightarrow> x = (y :: 32 word)"
  by (simp add: word_unat_eq_iff [symmetric])

lemma offset_diff:
  fixes x y b :: "32 word"
  assumes "unat (x - b) \<le> unat (y - b)"
  shows "unat (y - x) = unat (y - b) - unat (x - b)"
  using assms win_diff [of y x b] by simp

lemma window_inv_first:
  assumes "is_empty a" "unat (sn - b) \<le> 31"
  shows "window_inv b {sn} (snd (try_add sn a))"
  using assms by (simp add: try_add_empty window_inv_def)

lemma window_inv_step:
  assumes inv: "window_inv b P a" and sn: "unat (sn - b) \<le> 31"
  shows "fst (try_add sn a) \<and> window_inv b (insert sn P) (snd (try_add sn a))"
proof -
  define h where "h = highest_sequence_number a"
  define u v where "u = unat (h - b)" and "v = unat (sn - b)"
  have ne: "\<not> is_empty a" and hP: "h \<in> P" and lP: "lowest_sequence_number a \<in> P"
    and u: "u \<le> 31" and le: "\<And>x. x \<in> P \<Longrightarrow> unat (x - b) \<le> u"
    and bits: "\<And>i. i < 31 \<Longrightarrow> bit (predecessors a) i \<longleftrightarrow> (\<exists>x\<in>P. unat (x - b) + Suc i = u)"
    using inv by (simp_all add: window_inv_def h_def u_def)
  have v: "v \<le> 31"
    using sn by (simp add: v_def)
  consider (same) "v = u" | (below) "v < u" | (above) "u < v"
    by linarith
  then show ?thesis
  proof cases
    case same
    then have "sn = h"
      by (simp add: u_def v_def offset_inj)
    then have "try_add sn a = (True, a)" "insert sn P = P"
      using ne hP by (auto simp add: h_def try_add_same)
    with inv show ?thesis
      by simp
  next
    case below
    then have less: "sn_less sn (highest_sequence_number a)"
      using u v sn_less_window [of sn b h] by (simp add: u_def v_def h_def)
    have d: "unat (highest_sequence_number a - sn) = u - v"
      using below offset_diff [of sn b h] by (simp add: u_def v_def h_def)
    then have near: "unat (highest_sequence_number a - sn) \<le> 31"
      using u by simp
    have res: "try_add sn a = (True, a\<lparr>predecessors := pred_set (predecessors a) (u - v - 1)\<rparr>)"
      using try_add_below_near [OF ne less near] d by simp
    have "bit (pred_set (predecessors a) (u - v - 1)) i
        \<longleftrightarrow> (\<exists>x\<in>insert sn P. unat (x - b) + Suc i = u)" if "i < 31" for i
    proof -
      have "i = u - v - 1 \<longleftrightarrow> v + Suc i = u"
        using below by auto
      then show ?thesis
        using that bits [OF that] u below by (auto simp add: bit_pred_set v_def)
    qed
    then show ?thesis
      using ne hP lP u le below
      by (simp add: res window_inv_def h_def [symmetric] u_def [symmetric] v_def [symmetric])
  next
    case above
    define l where "l = lowest_sequence_number a"
    define w where "w = unat (l - b)"
    have w: "w \<le> u"
      using le [OF lP] by (simp add: w_def l_def)
    have less: "sn_less (highest_sequence_number a) sn"
      using u v above sn_less_window [of h b sn] by (simp add: u_def v_def h_def)
    have d: "unat (sn - highest_sequence_number a) = v - u"
      using above offset_diff [of h b sn] by (simp add: u_def v_def h_def)
    then have near: "unat (sn - highest_sequence_number a) \<le> 31"
      using v by simp
    have "sn_less h (l + 31 - of_nat i)" if "i < v - u" for i
    proof -
      have "unat (h - l) = u - w"
        using w offset_diff [of l b h] by (simp add: u_def w_def)
      moreover have "unat (of_nat (31 - i) :: 32 word) = 31 - i"
        by (simp add: unat_of_nat_small)
      moreover have "u - w \<le> 31 - i"
        using that v by simp
      ultimately have "unat (of_nat (31 - i) - (h - l)) = 31 - i - (u - w)"
        using unat_sub_if' [of "of_nat (31 - i)" "h - l"] by simp
      moreover have "l + 31 - of_nat i - h = of_nat (31 - i) - (h - l)"
        using that v by (simp add: of_nat_diff)
      ultimately have "unat (l + 31 - of_nat i - h) = 31 - i - (u - w)"
        by (simp only:)
      moreover have "0 < 31 - i - (u - w)" "31 - i - (u - w) < 2147483648"
        using that v w by arith+
      ultimately show ?thesis
        by (simp only: sn_less_unat)
    qed
    then have "shift_guard a (highest_sequence_number a) (sn - highest_sequence_number a) 0"
      using near d by (simp add: shift_guard_nat h_def l_def)
    then have res: "try_add sn a = (True, a\<lparr>predecessors :=
        pred_set (pred_shl (predecessors a) (v - u)) (v - u - 1), highest_sequence_number := sn\<rparr>)"
      using try_add_above_near [OF ne less near] d by simp
    have "bit (pred_set (pred_shl (predecessors a) (v - u)) (v - u - 1)) i
        \<longleftrightarrow> (\<exists>x\<in>insert sn P. unat (x - b) + Suc i = v)" if i: "i < 31" for i
    proof -
      consider (old) "v - u \<le> i" | (mark) "i = v - u - 1" | (gap) "Suc i < v - u"
        by linarith
      then show ?thesis
      proof cases
        case old
        then have "i - (v - u) < 31"
          using i by simp
        from bits [OF this]
        have "bit (predecessors a) (i - (v - u))
            \<longleftrightarrow> (\<exists>x\<in>P. unat (x - b) + Suc (i - (v - u)) = u)" .
        moreover have "unat (x - b) + Suc (i - (v - u)) = u \<longleftrightarrow> unat (x - b) + Suc i = v" for x
          using old above by arith
        moreover have "unat (sn - b) + Suc i \<noteq> v"
          by (simp add: v_def)
        moreover have "bit (pred_set (pred_shl (predecessors a) (v - u)) (v - u - 1)) i
            \<longleftrightarrow> bit (predecessors a) (i - (v - u))"
          using old above i by (auto simp add: bit_pred_set bit_pred_shl)
        ultimately show ?thesis
          by simp
      next
        case mark
        then have "unat (h - b) + Suc i = v"
          using above by (simp add: u_def)
        with hP have "\<exists>x\<in>insert sn P. unat (x - b) + Suc i = v"
          by blast
        with mark above i show ?thesis
          by (simp add: bit_pred_set bit_pred_shl)
      next
        case gap
        have "unat (x - b) + Suc i \<noteq> v" if "x \<in> insert sn P" for x
          using that le [of x] gap by (auto simp add: v_def)
        with gap i show ?thesis
          by (auto simp add: bit_pred_set bit_pred_shl)
      qed
    qed
    moreover have "unat (x - b) \<le> v" if "x \<in> P" for x
      using le [OF that] above by simp
    ultimately show ?thesis
      using ne hP lP v
      by (simp add: res window_inv_def v_def [symmetric])
  
  qed
qed

lemma add_all_window:
  assumes "\<forall>x\<in>set S. unat (x - b) \<le> 31" "window_inv b P a"
  shows "(\<forall>ok\<in>set (fst (add_all S a)). ok) \<and> window_inv b (P \<union> set S) (snd (add_all S a))"
  using assms
proof (induction S arbitrary: a P)
  case Nil
  then show ?case by simp
next
  case (Cons sn S)
  from Cons.prems have step: "fst (try_add sn a)" "window_inv b (insert sn P) (snd (try_add sn a))"
    using window_inv_step [of b P a sn] by simp_all
  from Cons.prems have "\<forall>x\<in>set S. unat (x - b) \<le> 31"
    by simp
  from Cons.IH [OF this step(2)]
  have "\<forall>ok\<in>set (fst (add_all S (snd (try_add sn a)))). ok"
    and "window_inv b (insert sn P \<union> set S) (snd (add_all S (snd (try_add sn a))))"
    by blast+
  with step(1) show ?case
    by (simp add: split_beta)
qed

lemma add_all_window_fresh:
  assumes "\<forall>x\<in>set S. unat (x - b) \<le> 31" "is_empty a" "S \<noteq> []"
  shows "(\<forall>ok\<in>set (fst (add_all S a)). ok) \<and> window_inv b (set S) (snd (add_all S a))"
proof -
  obtain sn S' where S: "S = sn # S'"
    using assms(3) by (cases S) auto
  have first: "fst (try_add sn a)" "window_inv b {sn} (snd (try_add sn a))"
    using assms(1,2) window_inv_first [of a sn b] by (simp_all add: S try_add_empty)
  have "\<forall>x\<in>set S'. unat (x - b) \<le> 31"
    using assms(1) by (simp add: S)
  from add_all_window [OF this first(2)]
  have "\<forall>ok\<in>set (fst (add_all S' (snd (try_add sn a)))). ok"
    and "window_inv b ({sn} \<union> set S') (snd (add_all S' (snd (try_add sn a))))"
    by blast+
  with first(1) show ?thesis
    by (simp add: S split_beta)
qed

lemma window_inv_iterate:
  assumes "window_inv b P a"
  shows "\<exists>xs. iterate a = Some xs \<and> set xs = P"
proof -
  define h where "h = highest_sequence_number a"
  define u where "u = unat (h - b)"
  have ne: "\<not> is_empty a" and hP: "h \<in> P"
    and u: "u \<le> 31" and le: "\<And>x. x \<in> P \<Longrightarrow> unat (x - b) \<le> u"
    and bits: "\<And>i. i < 31 \<Longrightarrow> bit (predecessors a) i \<longleftrightarrow> (\<exists>x\<in>P. unat (x - b) + Suc i = u)"
    using assms by (simp_all add: window_inv_def h_def u_def)
  have at: "x = h - of_nat (Suc i)" if "x \<in> P" "unat (x - b) + Suc i = u" for x i
  proof -
    have "unat (h - x) = Suc i"
      using that le [OF that(1)] offset_diff [of x b h] by (simp add: u_def)
    then have "of_nat (unat (h - x)) = (of_nat (Suc i) :: 32 word)"
      by (simp only:)
    then have "h - x = of_nat (Suc i)"
      by simp
    then show ?thesis
      by (simp add: algebra_simps)
  qed
  have "insert h {h - of_nat (Suc i) | i. i < 31 \<and> bit (predecessors a) i} = P" (is "?L = P")
  proof (intro set_eqI iffI)
    fix x assume "x \<in> ?L"
    then consider "x = h" | i where "i < 31" "bit (predecessors a) i" "x = h - of_nat (Suc i)"
      by auto
    then show "x \<in> P"
    proof cases
      case 1
      with hP show ?thesis by simp
    next
      case 2
      then obtain y where "y \<in> P" "unat (y - b) + Suc i = u"
        using bits by blast
      with at [of y i] 2 show ?thesis by simp
    qed
  next
    fix x assume x: "x \<in> P"
    show "x \<in> ?L"
    proof (cases "unat (x - b) = u")
      case True
      then have "x = h"
        by (simp add: u_def offset_inj)
      then show ?thesis by simp
    next
      case False
      define i where "i = u - unat (x - b) - 1"
      have i: "i < 31" "unat (x - b) + Suc i = u"
        using False le [OF x] u by (simp_all add: i_def)
      then have "bit (predecessors a) i"
        using bits x by blast
      with i at [OF x i(2)] show ?thesis
        by blast
    qed
  qed
  with iterate_set [OF ne] show ?thesis
    by (simp add: h_def)
qed

lemma try_add_window_general:
  assumes "\<forall>x\<in>set S. unat (x - b) \<le> 31"
  shows "(\<forall>ok\<in>set (fst (add_all S (AckSet_init h0 l0))). ok)
    \<and> (\<exists>xs. iterate (snd (add_all S (AckSet_init h0 l0))) = Some xs
          \<and> set xs = set S \<and> sorted_wrt (\<lambda>x y. sn_less y x) xs)"
proof (cases "S = []")
  case True
  then show ?thesis
    by (simp add: iterate_empty AckSet_init_def)
next
  case False
  have "is_empty (AckSet_init h0 l0)"
    by (simp add: AckSet_init_def)
  from add_all_window_fresh [OF assms this False]
  have ok: "\<forall>ok\<in>set (fst (add_all S (AckSet_init h0 l0))). ok"
    and inv: "window_inv b (set S) (snd (add_all S (AckSet_init h0 l0)))"
    by blast+
  from window_inv_iterate [OF inv] obtain xs
    where xs: "iterate (snd (add_all S (AckSet_init h0 l0))) = Some xs" "set xs = set S"
    by blast
  with iterate_decreasing [OF xs(1)] ok show ?thesis
    by blast
qed

text \<open>
  C1: for every finite sequence \<open>S\<close> of sequence numbers whose maximum and minimum differ
  by at most 31, adding the elements of \<open>S\<close> in order to a freshly constructed AckSet
  makes every call of \<open>try_add\<close> return true, and the traversal from \<open>begin()\<close> to
  \<open>end()\<close> then returns, yielding exactly the elements of \<open>S\<close>, each once, in strictly
  decreasing order.
\<close>

theorem try_add_window_iteration:
  assumes "\<forall>x\<in>set S. \<forall>y\<in>set S. unat x \<le> unat y + 31"
  shows "(\<forall>ok\<in>set (fst (add_all S (AckSet_init h0 l0))). ok)
    \<and> (\<exists>xs. iterate (snd (add_all S (AckSet_init h0 l0))) = Some xs
          \<and> set xs = set S \<and> sorted_wrt (\<lambda>x y. y < x) xs)"
proof (cases "S = []")
  case True
  then show ?thesis
    by (simp add: iterate_empty AckSet_init_def)
next
  case False
  define b where "b = Min (set S)"
  have b: "b \<in> set S" "\<And>x. x \<in> set S \<Longrightarrow> b \<le> x"
    using False by (simp_all add: b_def)
  have off: "unat (x - b) = unat x - unat b" if "x \<in> set S" for x
    using b(2) [OF that] by (simp add: unat_sub)
  have win: "\<forall>x\<in>set S. unat (x - b) \<le> 31"
  proof
    fix x assume x: "x \<in> set S"
    with assms b(1) have "unat x \<le> unat b + 31"
      by blast
    then show "unat (x - b) \<le> 31"
      by (simp add: off [OF x])
  qed
  from try_add_window_general [OF this, of h0 l0] obtain xs
    where ok: "\<forall>ok\<in>set (fst (add_all S (AckSet_init h0 l0))). ok"
      and xs: "iterate (snd (add_all S (AckSet_init h0 l0))) = Some xs" "set xs = set S"
      and dec: "sorted_wrt (\<lambda>x y. sn_less y x) xs"
    by blast
  have "sorted_wrt (\<lambda>x y. y < x) xs"
  proof (rule sorted_wrt_mono_rel [OF _ dec])
    fix x y
    assume "x \<in> set xs" "y \<in> set xs" "sn_less y x"
    then have x: "x \<in> set S" and y: "y \<in> set S" and "sn_less y x"
      by (simp_all add: xs(2))
    then have "unat (y - b) < unat (x - b)"
      using win sn_less_window [of y b x] by simp
    then have "unat y < unat x"
      by (simp add: off [OF x] off [OF y])
    then show "y < x"
      by (simp add: word_less_nat_alt)
  qed
  with ok xs show ?thesis
    by blast
qed

theorem try_add_window_iteration_witness:
  "False \<notin> set (fst (add_all [10, 0, 31, 10] (AckSet_init 7 9)))
   \<and> (\<exists>xs. iterate (snd (add_all [10, 0, 31, 10] (AckSet_init 7 9))) = Some xs
          \<and> set xs = set [10, 0, 31, 10] \<and> sorted_wrt (\<lambda>x y. y < x) xs)"
proof -
  have h: "\<forall>x\<in>set [10, 0, 31, 10 :: 32 word]. \<forall>y\<in>set [10, 0, 31, 10 :: 32 word]. unat x \<le> unat y + 31"
    by simp
  from try_add_window_iteration [OF h, of 7 9]
  have all: "\<forall>ok\<in>set (fst (add_all [10, 0, 31, 10] (AckSet_init 7 9))). ok"
    and ex: "\<exists>xs. iterate (snd (add_all [10, 0, 31, 10] (AckSet_init 7 9))) = Some xs
          \<and> set xs = set [10, 0, 31, 10] \<and> sorted_wrt (\<lambda>x y. y < x) xs"
    by (rule conjunct1, rule conjunct2)
  from all have "False \<notin> set (fst (add_all [10, 0, 31, 10] (AckSet_init 7 9)))"
    by blast
  from this ex show ?thesis
    by (rule conjI)
qed

section \<open>Properties of the TransmitQueue\<close>

subsection \<open>The encoder\<close>

lemma length_uuid_bytes [simp]: "length (uuid_bytes u) = 16"
  by (simp add: uuid_bytes_def)

lemma write_bytes_below: "a' < a \<Longrightarrow> write_bytes m a bs a' = m a'"
  by (induction m a bs rule: write_bytes.induct) simp_all

lemma write_bytes_at: "i < length bs \<Longrightarrow> write_bytes m a bs (a + i) = bs ! i"
proof (induction bs arbitrary: i m a)
  case Nil
  then show ?case by simp
next
  case (Cons b bs)
  show ?case
  proof (cases i)
    case 0
    then show ?thesis
      by (simp add: write_bytes_below)
  next
    case (Suc j)
    have "write_bytes (m(a := b)) (Suc a) bs (Suc a + j) = bs ! j"
      by (rule Cons.IH) (use Cons.prems Suc in simp)
    then show ?thesis
      by (simp add: Suc)
  qed
qed

text \<open>A sequence of writes, as one fold.\<close>

lemma fold_put_raw_end [simp]:
  "current_end (fst (fold put_raw bss em)) = current_end (fst em)"
  by (induction bss arbitrary: em) (auto simp add: put_raw_def split: prod.splits)

lemma fold_put_raw_error:
  "was_error (fst (fold put_raw bss em)) \<longleftrightarrow>
     was_error (fst em) \<or> current_end (fst em) - current_begin (fst em) < sum_list (map length bss)"
proof (induction bss arbitrary: em)
  case Nil
  then show ?case by simp
next
  case (Cons bs bss)
  obtain e m where em: "em = (e, m)" by (cases em)
  show ?case
    unfolding fold_simps Cons
    by (auto simp add: em put_raw_def)
qed

lemma fold_put_raw_begin:
  "\<not> was_error (fst (fold put_raw bss em)) \<Longrightarrow>
     current_begin (fst (fold put_raw bss em)) = current_begin (fst em) + sum_list (map length bss)"
proof (induction bss arbitrary: em)
  case Nil
  then show ?case by simp
next
  case (Cons bs bss)
  obtain e m where em: "em = (e, m)" by (cases em)
  from Cons.prems have "\<not> was_error (fst (fold put_raw bss (put_raw bs em)))"
    by simp
  from Cons.IH [OF this] this show ?case
    by (auto simp add: em put_raw_def fold_put_raw_error split: if_splits)
qed

lemma fold_put_raw_below:
  "a < current_begin (fst em) \<Longrightarrow> snd (fold put_raw bss em) a = snd em a"
proof (induction bss arbitrary: em)
  case Nil
  then show ?case by simp
next
  case (Cons bs bss)
  obtain e m where em: "em = (e, m)" by (cases em)
  have "a < current_begin (fst (put_raw bs em))" "snd (put_raw bs em) a = snd em a"
    using Cons.prems by (auto simp add: em put_raw_def write_bytes_below)
  with Cons.IH [of "put_raw bs em"] show ?case
    by simp
qed

text \<open>The chunks of one message record: source, count byte, targets, payload.\<close>

lemma encode_as_fold:
  assumes "length ts \<le> 255"
  shows "encode ndebug em ts msg =
    Inr (fold put_raw ([uuid_bytes (source msg), [of_nat (length ts)]]
                       @ map uuid_bytes ts @ [bytes msg]) em)"
proof -
  have "fold put_uuid ts x = fold put_raw (map uuid_bytes ts) x" for x
    by (induction ts arbitrary: x) (simp_all add: put_uuid_def)
  with assms show ?thesis
    by (simp add: encode_def encode_targets_def put_uuid_def put_u8_def)
qed

lemma sum_length_uuids [simp]: "sum_list (map (length \<circ> uuid_bytes) ts) = 16 * length ts"
  by (induction ts) simp_all

lemma try_encode_result:
  assumes "length ts \<le> 255"
  shows "\<exists>e' m'. try_encode ndebug (e, m) ts msg =
      Inr (\<not> (was_error e \<or> current_end e - current_begin e < 17 + 16 * length ts + length (bytes msg)),
           e', m')
    \<and> e' = (if was_error e \<or> current_end e - current_begin e < 17 + 16 * length ts + length (bytes msg)
            then e
            else e\<lparr>current_begin := current_begin e + (17 + 16 * length ts + length (bytes msg))\<rparr>)
    \<and> (\<forall>a<current_begin e. m' a = m a)"
proof -
  define chunks where
    "chunks = [uuid_bytes (source msg), [of_nat (length ts)]] @ map uuid_bytes ts @ [bytes msg]"
  define r where "r = fold put_raw chunks (e, m)"
  define total where "total = 17 + 16 * length ts + length (bytes msg)"
  have size: "sum_list (map length chunks) = total"
    by (simp add: chunks_def total_def)
  have enc: "encode ndebug (e, m) ts msg = Inr r"
    unfolding r_def chunks_def by (rule encode_as_fold [OF assms])
  have err: "was_error (fst r) \<longleftrightarrow> was_error e \<or> current_end e - current_begin e < total"
    using fold_put_raw_error [of chunks "(e, m)"] unfolding size r_def by simp
  have fin: "current_end (fst r) = current_end e"
    unfolding r_def by simp
  have below: "\<forall>a<current_begin e. snd r a = m a"
    using fold_put_raw_below [of _ "(e, m)" chunks] unfolding r_def by simp
  show ?thesis
  proof (cases "was_error (fst r)")
    case True
    have "(fst r)\<lparr>current_begin := current_begin e, was_error := was_error e\<rparr> = e"
      using fin by (cases e; cases "fst r") simp
    with True err below show ?thesis
      unfolding total_def [symmetric]
      by (simp add: try_encode_def enc Let_def split_beta)
  next
    case False
    then have "current_begin (fst r) = current_begin e + total"
      using fold_put_raw_begin [of chunks "(e, m)"] unfolding size r_def by simp
    then have "fst r = e\<lparr>current_begin := current_begin e + total\<rparr>"
      using fin False err by (cases e; cases "fst r") auto
    with False err below show ?thesis
      unfolding total_def [symmetric]
      by (simp add: try_encode_def enc Let_def split_beta)
  qed
qed

subsection \<open>The list, its iterators and the invariant of the cursor\<close>

lemma nodes_Nil [simp]: "nodes [] = {}"
  by (simp add: nodes_def)

lemma nodes_empty_iff [simp]: "nodes xs = {} \<longleftrightarrow> xs = []"
  by (simp add: nodes_def)

lemma list_deref_None_iff: "list_deref n xs = None \<longleftrightarrow> n \<notin> nodes xs"
  by (simp add: list_deref_def map_of_eq_None_iff nodes_def)

lemma list_deref_Some: "list_deref n xs = Some p \<Longrightarrow> n \<in> nodes xs"
  using list_deref_None_iff [of n xs] by auto

lemma list_begin_None [simp]: "list_begin xs = None \<longleftrightarrow> xs = []"
  by (cases xs) (simp_all add: list_begin_def)

lemma list_begin_Some: "list_begin xs = Some n \<Longrightarrow> n \<in> nodes xs"
  by (cases xs) (auto simp add: list_begin_def nodes_def)

lemma nodes_list_insert [simp]:
  "nodes (list_insert i x xs) = insert (fst x) (nodes xs)"
proof (cases i)
  case None
  then show ?thesis by (simp add: list_insert_def nodes_def)
next
  case (Some n)
  have "set (takeWhile (\<lambda>y. fst y \<noteq> n) xs) \<union> set (dropWhile (\<lambda>y. fst y \<noteq> n) xs) = set xs"
    by (metis set_append takeWhile_dropWhile_id)
  then show ?thesis
    by (auto simp add: Some list_insert_def nodes_def)
qed

lemma distinct_list_insert:
  assumes "distinct (map fst xs)" "fst x \<notin> nodes xs"
  shows "distinct (map fst (list_insert i x xs))"
proof (cases i)
  case None
  with assms show ?thesis by (simp add: list_insert_def nodes_def)
next
  case (Some n)
  define t d where "t = takeWhile (\<lambda>y. fst y \<noteq> n) xs" and "d = dropWhile (\<lambda>y. fst y \<noteq> n) xs"
  have "xs = t @ d"
    by (simp add: t_def d_def)
  with assms have "distinct (map fst (t @ x # d))"
    by (auto simp add: nodes_def)
  then show ?thesis
    unfolding Some list_insert_def t_def d_def by simp
qed

lemma list_insert_not_Nil [simp]: "list_insert i x xs \<noteq> []"
  by (cases i) (simp_all add: list_insert_def)

lemma nodes_list_erase [simp]: "nodes (list_erase n xs) = nodes xs - {n}"
  by (auto simp add: list_erase_def nodes_def)

lemma list_erase_Nil_iff: "list_erase n xs = [] \<longleftrightarrow> nodes xs \<subseteq> {n}"
  using nodes_list_erase [of n xs] nodes_empty_iff [of "list_erase n xs"] by auto

lemma distinct_list_erase: "distinct (map fst xs) \<Longrightarrow> distinct (map fst (list_erase n xs))"
  by (simp add: list_erase_def distinct_map_filter)

lemma list_next_Some:
  assumes "list_next n xs = Some n'" "distinct (map fst xs)"
  shows "n' \<in> nodes xs \<and> n' \<noteq> n"
proof -
  define t d where "t = takeWhile (\<lambda>y. fst y \<noteq> n) xs" and "d = dropWhile (\<lambda>y. fst y \<noteq> n) xs"
  from assms(1) obtain x y zs where d: "d = x # y # zs" "n' = fst y"
    by (auto simp add: list_next_def d_def split: list.splits)
  then have x: "fst x = n"
    using hd_dropWhile [of "\<lambda>x. fst x \<noteq> n" xs] by (simp add: d_def)
  have xs: "xs = t @ x # y # zs"
    using d(1) unfolding t_def d_def by (metis takeWhile_dropWhile_id)
  with assms(2) have "fst x \<noteq> fst y"
    by simp
  moreover have "fst y \<in> nodes xs"
    unfolding nodes_def by (subst xs) simp
  ultimately show ?thesis
    using x d(2) by simp
qed

lemma well_formed_init: "well_formed TransmitQueue_init \<and> cursor_invariant TransmitQueue_init"
  by (simp add: well_formed_def cursor_invariant_def TransmitQueue_init_def)

lemma well_formed_insert_message:
  assumes "well_formed q" "cursor_invariant q"
  shows "well_formed (insert_message p q) \<and> cursor_invariant (insert_message p q)"
proof -
  have fresh: "q_alloc q \<notin> nodes (q_messages q)"
    using assms(1) by (auto simp add: well_formed_def)
  have d: "distinct (map fst (list_insert (q_next q) (q_alloc q, p) (q_messages q)))"
    using assms(1) fresh by (intro distinct_list_insert) (simp_all add: well_formed_def)
  show ?thesis
    using assms d
    by (auto simp add: insert_message_def Let_def well_formed_def cursor_invariant_def
        less_Suc_eq dest: list_begin_Some)
qed

lemma well_formed_erase:
  assumes "well_formed q" "cursor_invariant q" "i \<in> nodes (q_messages q)"
  shows "\<exists>q'. erase i q = Inr q' \<and> well_formed q' \<and> cursor_invariant q'
     \<and> q_messages q' = list_erase i (q_messages q) \<and> q_targets q' = q_targets q"
proof -
  obtain p where p: "list_deref i (q_messages q) = Some p"
    using assms(3) list_deref_None_iff [of i "q_messages q"] by auto
  have d: "distinct (map fst (q_messages q))"
    using assms(1) by (simp add: well_formed_def)
  obtain n where n: "q_next q = Some n" "n \<in> nodes (q_messages q)"
    using assms by (cases "q_next q") (auto simp add: well_formed_def cursor_invariant_def)
  show ?thesis
  proof (cases "n = i")
    case True
    show ?thesis
    proof (cases "list_next i (q_messages q)")
      case None
      then show ?thesis
        using assms p n True d
        by (auto simp add: erase_def Let_def well_formed_def cursor_invariant_def
            distinct_list_erase dest!: list_begin_Some)
    next
      case (Some n')
      with list_next_Some [OF Some d] show ?thesis
        using assms p n True d
        by (auto simp add: erase_def Let_def well_formed_def cursor_invariant_def
            distinct_list_erase list_erase_Nil_iff)
    qed
  next
    case False
    then show ?thesis
      using assms p n d
      by (auto simp add: erase_def Let_def well_formed_def cursor_invariant_def
          distinct_list_erase list_erase_Nil_iff)
  qed
qed

lemma length_set_intersection: "length (set_intersection xs ys) \<le> length ys"
  by (induction xs ys rule: set_intersection.induct) auto

lemma set_set_intersection: "set (set_intersection xs ys) \<subseteq> set xs \<inter> set ys"
  by (induction xs ys rule: set_intersection.induct) auto

lemma try_encode_Inl:
  "try_encode ndebug em ts msg = Inl err \<Longrightarrow>
     err = AssertionFailed 226 \<and> \<not> ndebug \<and> 255 < length ts"
  by (auto simp add: try_encode_def encode_def encode_targets_def Let_def
      split: sum.splits if_splits prod.splits)

lemma circular_increment_wf:
  assumes "well_formed q" "cursor_invariant q" "q_messages q \<noteq> []"
  shows "\<exists>c p nxt. q_next q = Some c \<and> list_deref c (q_messages q) = Some p
    \<and> circular_increment ndebug q (q_next q) = Inr (Some nxt) \<and> nxt \<in> nodes (q_messages q)"
proof -
  obtain c where c: "q_next q = Some c" "c \<in> nodes (q_messages q)"
    using assms by (cases "q_next q") (auto simp add: well_formed_def cursor_invariant_def)
  then obtain p where p: "list_deref c (q_messages q) = Some p"
    using list_deref_None_iff [of c "q_messages q"] by auto
  have d: "distinct (map fst (q_messages q))"
    using assms(1) by (simp add: well_formed_def)
  show ?thesis
  proof (cases "list_next c (q_messages q)")
    case None
    obtain b where "list_begin (q_messages q) = Some b"
      using assms(3) by (cases "list_begin (q_messages q)") auto
    with None c p assms(3) list_begin_Some [of "q_messages q" b] show ?thesis
      by (simp add: circular_increment_def)
  next
    case (Some n')
    with list_next_Some [OF Some d] c p assms(3) show ?thesis
      by (simp add: circular_increment_def)
  qed
qed

lemma erase_current_wf:
  assumes "well_formed (queue s)" "cursor_invariant (queue s)" "c \<in> nodes (q_messages (queue s))"
  shows "\<exists>f q'. erase_current c fl s = Inr (f, s\<lparr>queue := q'\<rparr>)
    \<and> well_formed q' \<and> cursor_invariant q' \<and> (f = Continue \<longrightarrow> q_messages q' \<noteq> [])
    \<and> q_targets q' = q_targets (queue s)"
proof -
  from well_formed_erase [OF assms] obtain q' where q': "erase c (queue s) = Inr q'"
    "well_formed q'" "cursor_invariant q'" "q_targets q' = q_targets (queue s)"
    by blast
  show ?thesis
  proof (intro exI conjI)
    show "erase_current c fl s
        = Inr (if q_messages q' = [] then Break else fl, s\<lparr>queue := q'\<rparr>)"
      by (simp add: erase_current_def q')
  qed (use q' in auto)
qed

lemma after_encode_wf:
  assumes "well_formed (queue s)" "cursor_invariant (queue s)" "c \<in> nodes (q_messages (queue s))"
  shows "\<exists>f s'. after_encode c p il s = Inr (f, s')
    \<and> well_formed (queue s') \<and> cursor_invariant (queue s')
    \<and> (f = Continue \<longrightarrow> q_messages (queue s') \<noteq> [])
    \<and> q_targets (queue s') = q_targets (queue s)"
proof -
  define s1 where "s1 = s\<lparr>heap := (heap s)(p := (heap s p)\<lparr>targets :=
      fold set_erase (q_targets (queue s)) (targets (heap s p))\<rparr>)\<rparr>"
  have "queue s1 = queue s"
    by (simp add: s1_def)
  with erase_current_wf [of s1 c "if il then Break else Continue"] assms
  obtain f q' where "erase_current c (if il then Break else Continue) s1 = Inr (f, s1\<lparr>queue := q'\<rparr>)"
    "well_formed q'" "cursor_invariant q'" "f = Continue \<longrightarrow> q_messages q' \<noteq> []"
    "q_targets q' = q_targets (queue s)"
    by auto
  moreover have "q_messages (queue s) \<noteq> []"
    using assms(3) by auto
  ultimately show ?thesis
    using assms(1,2) unfolding after_encode_def Let_def s1_def
    by auto
qed

lemma encode_current_wf:
  assumes "well_formed (queue s)" "cursor_invariant (queue s)" "c \<in> nodes (q_messages (queue s))"
  shows "case encode_current ndebug c p il s of
      Inl err \<Rightarrow> err = AssertionFailed 226 \<and> \<not> ndebug
        \<and> 255 < length (q_target_intersection (queue s))
    | Inr (f, s') \<Rightarrow> well_formed (queue s') \<and> cursor_invariant (queue s')
        \<and> (f = Continue \<longrightarrow> q_messages (queue s') \<noteq> [])
        \<and> q_targets (queue s') = q_targets (queue s)"
proof (cases "q_target_intersection (queue s) = []")
  case True
  with erase_current_wf [OF assms, of Continue] show ?thesis
    by (auto simp add: encode_current_def)
next
  case False
  show ?thesis
  proof (cases "try_encode ndebug (enc s, mem s) (q_target_intersection (queue s)) (heap s p)")
    case (Inl err)
    with False try_encode_Inl [OF Inl] show ?thesis
      by (simp add: encode_current_def)
  next
    case (Inr r)
    obtain ok e m where r: "r = (ok, e, m)"
      by (cases r)
    show ?thesis
    proof (cases ok)
      case True
      define s1 where "s1 = s\<lparr>enc := e, mem := m, count := count s + 1,
          encoded := encoded s @ [(p, q_target_intersection (queue s))]\<rparr>"
      have "queue s1 = queue s"
        by (simp add: s1_def)
      with after_encode_wf [of s1 c p il] assms
      obtain f s' where "after_encode c p il s1 = Inr (f, s')"
        "well_formed (queue s')" "cursor_invariant (queue s')"
        "f = Continue \<longrightarrow> q_messages (queue s') \<noteq> []" "q_targets (queue s') = q_targets (queue s)"
        by auto
      with False Inr r True show ?thesis
        unfolding encode_current_def Let_def s1_def by simp
    next
      case no: False
      have "well_formed ((queue s)\<lparr>q_next := Some c\<rparr>)" "cursor_invariant ((queue s)\<lparr>q_next := Some c\<rparr>)"
        using assms by (auto simp add: well_formed_def cursor_invariant_def)
      with False Inr r no show ?thesis
        by (simp add: encode_current_def)
    qed
  qed
qed

lemma loop_body_wf:
  assumes "well_formed (queue s)" "cursor_invariant (queue s)" "q_messages (queue s) \<noteq> []"
  shows "case loop_body ndebug last_it s of
      Inl err \<Rightarrow> err = AssertionFailed 226 \<and> \<not> ndebug \<and> 255 < length (q_targets (queue s))
    | Inr (f, s') \<Rightarrow> well_formed (queue s') \<and> cursor_invariant (queue s')
        \<and> (f = Continue \<longrightarrow> q_messages (queue s') \<noteq> [])
        \<and> q_targets (queue s') = q_targets (queue s)"
proof -
  from circular_increment_wf [OF assms, of ndebug] obtain c p nxt
    where c: "q_next (queue s) = Some c" "list_deref c (q_messages (queue s)) = Some p"
      and nxt: "circular_increment ndebug (queue s) (q_next (queue s)) = Inr (Some nxt)"
        "nxt \<in> nodes (q_messages (queue s))"
    by blast
  define s2 where "s2 = s\<lparr>queue := (queue s)\<lparr>q_next := Some nxt, q_target_intersection :=
      set_intersection (targets (heap s p)) (q_targets (queue s))\<rparr>\<rparr>"
  have body: "loop_body ndebug last_it s = encode_current ndebug c p (Some c = last_it) s2"
    using c nxt(1) by (simp add: loop_body_def s2_def)
  have wf2: "well_formed (queue s2)" "cursor_invariant (queue s2)"
    "c \<in> nodes (q_messages (queue s2))"
    using assms nxt(2) list_deref_Some [OF c(2)]
    by (auto simp add: s2_def well_formed_def cursor_invariant_def)
  have "length (q_target_intersection (queue s2)) \<le> length (q_targets (queue s))"
    "q_targets (queue s2) = q_targets (queue s)"
    by (simp_all add: s2_def length_set_intersection)
  with encode_current_wf [OF wf2, of ndebug p "Some c = last_it"] show ?thesis
    unfolding body by (auto split: sum.splits)
qed

lemma encode_loop_wf:
  assumes "well_formed (queue s)" "cursor_invariant (queue s)" "q_messages (queue s) \<noteq> []"
  shows "case encode_loop ndebug last_it s of
      Inl err \<Rightarrow> err = AssertionFailed 226 \<and> \<not> ndebug \<and> 255 < length (q_targets (queue s))
    | Inr s' \<Rightarrow> well_formed (queue s') \<and> cursor_invariant (queue s')
        \<and> q_targets (queue s') = q_targets (queue s)"
  using assms
proof (induction ndebug last_it s rule: encode_loop.induct)
  case (1 ndebug last_it s)
  note body = loop_body_wf [OF "1.prems", of ndebug last_it]
  show ?case
  proof (cases "loop_body ndebug last_it s")
    case (Inl err)
    with body show ?thesis
      by (subst encode_loop.simps) simp
  next
    case (Inr r)
    obtain f s' where r: "r = (f, s')"
      by (cases r)
    show ?thesis
    proof (cases f)
      case Break
      with body Inr r show ?thesis
        by (subst encode_loop.simps) simp
    next
      case Continue
      with body Inr r have "well_formed (queue s')" "cursor_invariant (queue s')"
        "q_messages (queue s') \<noteq> []" and t: "q_targets (queue s') = q_targets (queue s)"
        by simp_all
      from "1.IH" [OF Inr r [symmetric] Continue this(1-3)] t Inr r Continue show ?thesis
        by (subst encode_loop.simps) (simp split: sum.splits)
    qed
  qed
qed

lemma encode_few_wf:
  assumes "well_formed (queue s)" "cursor_invariant (queue s)"
  shows "case encode_few ndebug s of
      Inl err \<Rightarrow> err = AssertionFailed 226 \<and> \<not> ndebug \<and> 255 < length (q_targets (queue s))
    | Inr s' \<Rightarrow> well_formed (queue s') \<and> cursor_invariant (queue s')
        \<and> q_targets (queue s') = q_targets (queue s)"
proof (cases "q_messages (queue s) = []")
  case True
  with assms show ?thesis
    by (simp add: encode_few_def)
next
  case False
  then obtain c where c: "q_next (queue s) = Some c" "c \<in> nodes (q_messages (queue s))"
    using assms by (cases "q_next (queue s)") (auto simp add: well_formed_def cursor_invariant_def)
  then have "list_deref c (q_messages (queue s)) \<noteq> None"
    by (simp add: list_deref_None_iff)
  then have "\<exists>l. initial_last (queue s) = Inr l"
    using c by (cases "Some c = list_begin (q_messages (queue s))") (auto simp add: initial_last_def)
  then obtain l where l: "initial_last (queue s) = Inr l" ..
  from encode_loop_wf [of "s\<lparr>count := 0\<rparr>" ndebug l] assms False l show ?thesis
    by (auto simp add: encode_few_def split: sum.splits)
qed

text \<open>
  C5: the invariant of the queue, that the list of messages is empty if and only if the
  cursor \<^verbatim>\<open>_next\<close> is the end position, holds after construction and is preserved by
  \<open>insert_message\<close>, by \<open>erase\<close> of a node of the list and by \<open>encode_few\<close>. It is carried
  through together with the validity of the iterators (\<open>well_formed\<close>: the cursor, when
  not the end, points to a node of the list, and nodes are distinct), which the
  constructor establishes too. A call of \<open>encode_few\<close> that does not return has stopped at
  the assertion of \<open>encode_targets\<close>.
\<close>

theorem cursor_invariant_preserved:
  assumes "well_formed q" and "cursor_invariant q"
  shows "well_formed TransmitQueue_init \<and> cursor_invariant TransmitQueue_init
    \<and> well_formed (insert_message p q) \<and> cursor_invariant (insert_message p q)
    \<and> (\<forall>i\<in>nodes (q_messages q).
          \<exists>q'. erase i q = Inr q' \<and> well_formed q' \<and> cursor_invariant q')
    \<and> (case encode_few ndebug (s\<lparr>queue := q\<rparr>) of
          Inr s' \<Rightarrow> well_formed (queue s') \<and> cursor_invariant (queue s')
        | Inl err \<Rightarrow> err = AssertionFailed 226 \<and> \<not> ndebug \<and> 255 < length (q_targets q))"
proof -
  have "\<exists>q'. erase i q = Inr q' \<and> well_formed q' \<and> cursor_invariant q'"
    if "i \<in> nodes (q_messages q)" for i
    using well_formed_erase [OF assms that] by blast
  moreover have "case encode_few ndebug (s\<lparr>queue := q\<rparr>) of
          Inr s' \<Rightarrow> well_formed (queue s') \<and> cursor_invariant (queue s')
        | Inl err \<Rightarrow> err = AssertionFailed 226 \<and> \<not> ndebug \<and> 255 < length (q_targets q)"
    using encode_few_wf [of "s\<lparr>queue := q\<rparr>" ndebug] assms
    by (auto split: sum.splits)
  ultimately show ?thesis
    using well_formed_init well_formed_insert_message [OF assms, of p] by blast
qed

theorem cursor_invariant_preserved_witness:
  "well_formed (insert_message 4 TransmitQueue_init)
   \<and> cursor_invariant (insert_message 4 TransmitQueue_init)
   \<and> nodes (q_messages (insert_message 4 TransmitQueue_init)) = {0}
   \<and> well_formed (insert_message 5 (insert_message 4 TransmitQueue_init))
   \<and> cursor_invariant (insert_message 5 (insert_message 4 TransmitQueue_init))
   \<and> (\<exists>q'. erase 0 (insert_message 4 TransmitQueue_init) = Inr q'
         \<and> well_formed q' \<and> cursor_invariant q')
   \<and> (case encode_few True
        \<lparr>queue = insert_message 4 TransmitQueue_init,
          heap = (\<lambda>_. \<lparr>source = 0, targets = [], bytes = [], is_reliable = True\<rparr>),
          enc = \<lparr>current_begin = 0, current_end = 64, was_error = False\<rparr>,
          mem = (\<lambda>_. 0), count = 0, encoded = []\<rparr> of
          Inr s' \<Rightarrow> well_formed (queue s') \<and> cursor_invariant (queue s')
        | Inl err \<Rightarrow> err = AssertionFailed 226 \<and> \<not> True
            \<and> 255 < length (q_targets (insert_message 4 TransmitQueue_init)))"
proof -
  have h: "well_formed (insert_message 4 TransmitQueue_init)"
    "cursor_invariant (insert_message 4 TransmitQueue_init)"
    and n: "nodes (q_messages (insert_message 4 TransmitQueue_init)) = {0}"
    by (simp_all add: insert_message_def TransmitQueue_init_def well_formed_def
        cursor_invariant_def list_insert_def list_begin_def nodes_def)
  from cursor_invariant_preserved [OF h, of 5 True
      "\<lparr>queue = insert_message 4 TransmitQueue_init,
        heap = (\<lambda>_. \<lparr>source = 0, targets = [], bytes = [], is_reliable = True\<rparr>),
        enc = \<lparr>current_begin = 0, current_end = 64, was_error = False\<rparr>,
        mem = (\<lambda>_. 0), count = 0, encoded = []\<rparr>"] h n
  show ?thesis
    by simp
qed

subsection \<open>What one pass of the loop does\<close>

lemma erase_targets: "erase c q = Inr q' \<Longrightarrow> q_targets q' = q_targets q"
  by (auto simp add: erase_def Let_def split: option.splits if_splits)

lemma erase_current_effect:
  assumes "erase_current c fl s = Inr (f, s')"
  shows "q_targets (queue s') = q_targets (queue s) \<and> heap s' = heap s
    \<and> encoded s' = encoded s \<and> enc s' = enc s \<and> mem s' = mem s \<and> count s' = count s"
  using assms by (auto simp add: erase_current_def split: sum.splits dest: erase_targets)

lemma after_encode_effect:
  assumes "after_encode c p il s = Inr (f, s')"
  shows "q_targets (queue s') = q_targets (queue s)
    \<and> encoded s' = encoded s \<and> enc s' = enc s \<and> mem s' = mem s \<and> count s' = count s
    \<and> heap s' = (if is_reliable (heap s p) then heap s
         else (heap s)(p := (heap s p)\<lparr>targets :=
                fold set_erase (q_targets (queue s)) (targets (heap s p))\<rparr>))"
  using assms
  by (auto simp add: after_encode_def Let_def split: if_splits dest!: erase_current_effect)

lemma loop_body_effect:
  assumes "loop_body ndebug last_it s = Inr (f, s')"
  shows "\<exists>c p ti. q_next (queue s) = Some c \<and> list_deref c (q_messages (queue s)) = Some p
    \<and> ti = set_intersection (targets (heap s p)) (q_targets (queue s))
    \<and> q_targets (queue s') = q_targets (queue s)
    \<and> ((ti = [] \<and> heap s' = heap s \<and> encoded s' = encoded s
           \<and> enc s' = enc s \<and> mem s' = mem s \<and> count s' = count s)
       \<or> (ti \<noteq> [] \<and> try_encode ndebug (enc s, mem s) ti (heap s p) = Inr (False, enc s', mem s')
           \<and> heap s' = heap s \<and> encoded s' = encoded s \<and> count s' = count s
           \<and> f = Break \<and> q_next (queue s') = Some c)
       \<or> (ti \<noteq> [] \<and> try_encode ndebug (enc s, mem s) ti (heap s p) = Inr (True, enc s', mem s')
           \<and> encoded s' = encoded s @ [(p, ti)] \<and> count s' = count s + 1
           \<and> heap s' = (if is_reliable (heap s p) then heap s
                else (heap s)(p := (heap s p)\<lparr>targets :=
                       fold set_erase (q_targets (queue s)) (targets (heap s p))\<rparr>))))"
proof -
  from assms obtain c p nxt where c: "q_next (queue s) = Some c"
    "list_deref c (q_messages (queue s)) = Some p"
    "circular_increment ndebug (queue s) (Some c) = Inr nxt"
    by (auto simp add: loop_body_def Let_def split: sum.splits option.splits)
  define ti where "ti = set_intersection (targets (heap s p)) (q_targets (queue s))"
  define s2 where "s2 = s\<lparr>queue := (queue s)\<lparr>q_next := nxt, q_target_intersection := ti\<rparr>\<rparr>"
  have body: "encode_current ndebug c p (Some c = last_it) s2 = Inr (f, s')"
    using assms c by (simp add: loop_body_def s2_def ti_def)
  have s2: "q_targets (queue s2) = q_targets (queue s)" "heap s2 = heap s" "encoded s2 = encoded s"
    "enc s2 = enc s" "mem s2 = mem s" "count s2 = count s" "q_target_intersection (queue s2) = ti"
    by (simp_all add: s2_def)
  show ?thesis
  proof (cases "ti = []")
    case True
    with body have "erase_current c Continue s2 = Inr (f, s')"
      by (simp add: encode_current_def s2)
    from erase_current_effect [OF this] True c show ?thesis
      by (simp add: s2 ti_def)
  next
    case False
    from body False obtain ok e m
      where t: "try_encode ndebug (enc s, mem s) ti (heap s p) = Inr (ok, e, m)"
      by (auto simp add: encode_current_def s2 Let_def split: sum.splits)
    show ?thesis
    proof (cases ok)
      case True
      with body False t have "after_encode c p (Some c = last_it)
          (s2\<lparr>enc := e, mem := m, count := count s2 + 1, encoded := encoded s2 @ [(p, ti)]\<rparr>)
          = Inr (f, s')"
        by (simp add: encode_current_def s2 Let_def)
      from after_encode_effect [OF this] True False t c show ?thesis
        by (simp add: s2 ti_def [symmetric])
    next
      case no: False
      with body False t have "s' = s2\<lparr>queue := (queue s2)\<lparr>q_next := Some c\<rparr>, enc := e, mem := m\<rparr>"
        "f = Break"
        by (simp_all add: encode_current_def s2 Let_def)
      with no False t c show ?thesis
        by (simp add: s2 ti_def [symmetric])
    qed
  qed
qed

lemma encode_loop_invariant:
  assumes step: "\<And>ndebug last_it s f s'. loop_body ndebug last_it s = Inr (f, s') \<Longrightarrow> I s \<Longrightarrow> I s'"
    and "I s" and "encode_loop ndebug last_it s = Inr s'"
  shows "I s'"
  using assms(2,3)
proof (induction ndebug last_it s rule: encode_loop.induct)
  case (1 ndebug last_it s)
  from "1.prems"(2) obtain f s1 where body: "loop_body ndebug last_it s = Inr (f, s1)"
    by (subst (asm) encode_loop.simps) (auto split: sum.splits)
  from step [OF body "1.prems"(1)] have I1: "I s1" .
  show ?case
  proof (cases f)
    case Break
    with body "1.prems"(2) have "s' = s1"
      by (subst (asm) encode_loop.simps) simp
    with I1 show ?thesis by simp
  next
    case Continue
    with body "1.prems"(2) have "encode_loop ndebug last_it s1 = Inr s'"
      by (subst (asm) encode_loop.simps) simp
    from "1.IH" [OF body refl Continue I1 this] show ?thesis .
  qed
qed

subsection \<open>Unreliable messages are sent once to each target\<close>

lemma set_fold_set_erase: "set (fold set_erase ts xs) = set xs - set ts"
  by (induction ts arbitrary: xs) (auto simp add: set_erase_def)

lemma count_list_0_iff': "count_list xs x = 0 \<longleftrightarrow> x \<notin> set xs"
  by (induction xs) auto

lemma loop_body_sent_once:
  assumes "loop_body ndebug last_it s = Inr (f, s')" "sent_once s"
  shows "sent_once s'"
proof -
  from loop_body_effect [OF assms(1)] obtain c p ti
    where ti: "ti = set_intersection (targets (heap s p)) (q_targets (queue s))"
      and T: "q_targets (queue s') = q_targets (queue s)"
      and eff: "(ti = [] \<and> heap s' = heap s \<and> encoded s' = encoded s)
        \<or> (ti \<noteq> [] \<and> heap s' = heap s \<and> encoded s' = encoded s)
        \<or> (ti \<noteq> [] \<and> encoded s' = encoded s @ [(p, ti)]
            \<and> heap s' = (if is_reliable (heap s p) then heap s
                else (heap s)(p := (heap s p)\<lparr>targets :=
                       fold set_erase (q_targets (queue s)) (targets (heap s p))\<rparr>)))"
    by blast
  from eff consider (same) "heap s' = heap s" "encoded s' = encoded s"
    | (sent) "ti \<noteq> []" "encoded s' = encoded s @ [(p, ti)]"
        "heap s' = (if is_reliable (heap s p) then heap s
                else (heap s)(p := (heap s p)\<lparr>targets :=
                       fold set_erase (q_targets (queue s)) (targets (heap s p))\<rparr>))"
    by blast
  then show ?thesis
  proof cases
    case same
    with assms(2) T show ?thesis
      by (simp add: sent_once_def)
  next
    case sent
    have live: "set (targets (heap s p)) \<inter> set (q_targets (queue s)) \<noteq> {}"
    proof -
      from sent(1) obtain t where "t \<in> set ti"
        by (cases ti) auto
      with set_set_intersection [of "targets (heap s p)" "q_targets (queue s)"] show ?thesis
        unfolding ti by blast
    qed
    show ?thesis
    proof (cases "is_reliable (heap s p)")
      case True
      with sent have "heap s' = heap s"
        by simp
      moreover have "count_list (map fst (encoded s')) r = count_list (map fst (encoded s)) r"
        "r \<in> fst ` set (encoded s') \<longleftrightarrow> r \<in> fst ` set (encoded s)"
        if "\<not> is_reliable (heap s r)" for r
        using that True sent(2) by auto
      ultimately show ?thesis
        using assms(2) T by (simp add: sent_once_def)
    next
      case False
      with assms(2) live have new: "p \<notin> fst ` set (encoded s)"
        by (auto simp add: sent_once_def)
      then have zero: "count_list (map fst (encoded s)) p = 0"
        by (simp add: count_list_0_iff')
      have heap': "heap s' = (heap s)(p := (heap s p)\<lparr>targets :=
          fold set_erase (q_targets (queue s)) (targets (heap s p))\<rparr>)"
        using sent(3) False by simp
      show ?thesis
        unfolding sent_once_def
      proof (intro allI impI)
        fix r assume r: "\<not> is_reliable (heap s' r)"
        show "count_list (map fst (encoded s')) r \<le> 1
          \<and> (r \<in> fst ` set (encoded s') \<longrightarrow>
               set (targets (heap s' r)) \<inter> set (q_targets (queue s')) = {})"
        proof (cases "r = p")
          case True
          then show ?thesis
            using zero by (auto simp add: sent(2) heap' T set_fold_set_erase)
        next
          case False
          with r have "\<not> is_reliable (heap s r)" "heap s' r = heap s r"
            by (simp_all add: heap')
          with assms(2) False show ?thesis
            by (auto simp add: sent_once_def sent(2) T)
        qed
      qed
    qed
  qed
qed

lemma encode_few_invariant:
  assumes step: "\<And>ndebug last_it s f s'. loop_body ndebug last_it s = Inr (f, s') \<Longrightarrow> I s \<Longrightarrow> I s'"
    and "I (s\<lparr>count := 0\<rparr>)" and "encode_few ndebug s = Inr s'"
  shows "I s'"
proof (cases "q_messages (queue s) = []")
  case True
  with assms(2,3) show ?thesis
    by (auto simp add: encode_few_def)
next
  case False
  with assms(3) obtain l where "encode_loop ndebug l (s\<lparr>count := 0\<rparr>) = Inr s'"
    by (auto simp add: encode_few_def split: sum.splits)
  from encode_loop_invariant [of I, OF step assms(2) this] show ?thesis
    by simp
qed

lemma run_calls_invariant:
  assumes step: "\<And>ndebug last_it s f s'. loop_body ndebug last_it s = Inr (f, s') \<Longrightarrow> I s \<Longrightarrow> I s'"
    and reset: "\<And>s e m. I s \<Longrightarrow> I (s\<lparr>enc := e, mem := m, count := 0\<rparr>)"
    and ins: "\<And>s p. InsertMessage p \<in> set calls \<Longrightarrow> I s
      \<Longrightarrow> I (s\<lparr>queue := insert_message p (queue s)\<rparr>)"
    and tgt: "\<And>s t. AddTarget t \<in> set calls \<Longrightarrow> I s
      \<Longrightarrow> I (s\<lparr>queue := add_target t (queue s)\<rparr>)"
    and "I s" and "run_calls ndebug calls s = Inr s'"
  shows "I s'"
proof -
  have "I s \<Longrightarrow> run_calls ndebug cs s = Inr s' \<Longrightarrow> set cs \<subseteq> set calls \<Longrightarrow> I s'" for cs s
  proof (induction cs arbitrary: s)
    case Nil
    then show ?case by simp
  next
    case (Cons c cs)
    from Cons.prems(3) have sub: "set cs \<subseteq> set calls" and c: "c \<in> set calls"
      by simp_all
    show ?case
    proof (cases c)
      case (EncodeFew e m)
      with Cons.prems(2) obtain s1 where s1: "encode_few ndebug (s\<lparr>enc := e, mem := m\<rparr>) = Inr s1"
        "run_calls ndebug cs s1 = Inr s'"
        by (auto split: sum.splits)
      have "I (s\<lparr>enc := e, mem := m\<rparr>\<lparr>count := 0\<rparr>)"
        using reset [OF Cons.prems(1)] by simp
      from encode_few_invariant [of I, OF step this s1(1)] have "I s1"
        by simp
      from Cons.IH [OF this s1(2) sub] show ?thesis .
    next
      case (InsertMessage p)
      with Cons.prems(2) have "run_calls ndebug cs (s\<lparr>queue := insert_message p (queue s)\<rparr>) = Inr s'"
        by simp
      moreover have "I (s\<lparr>queue := insert_message p (queue s)\<rparr>)"
        using ins [of p s] c InsertMessage Cons.prems(1) by simp
      ultimately show ?thesis
        using Cons.IH sub by blast
    next
      case (AddTarget t)
      with Cons.prems(2) have "run_calls ndebug cs (s\<lparr>queue := add_target t (queue s)\<rparr>) = Inr s'"
        by simp
      moreover have "I (s\<lparr>queue := add_target t (queue s)\<rparr>)"
        using tgt [of t s] c AddTarget Cons.prems(1) by simp
      ultimately show ?thesis
        using Cons.IH sub by blast
    qed
  qed
  from this [OF assms(5,6)] show ?thesis
    by simp
qed

lemma insert_message_targets [simp]: "q_targets (insert_message p q) = q_targets q"
  by (simp add: insert_message_def Let_def)

lemma insert_message_released: "q_released (insert_message p q) = q_released q"
  by (simp add: insert_message_def Let_def)

lemma add_target_fields:
  "q_released (add_target t q) = q_released q" "q_messages (add_target t q) = q_messages q"
  by (simp_all add: add_target_def)

lemma run_calls_sent_once:
  assumes "sent_once s" "run_calls ndebug calls s = Inr s'" "\<forall>t. AddTarget t \<notin> set calls"
  shows "sent_once s'"
proof (rule run_calls_invariant [of sent_once, OF _ _ _ _ assms(1,2)])
  fix s t assume "AddTarget t \<in> set calls"
  with assms(3) show "sent_once (s\<lparr>queue := add_target t (queue s)\<rparr>)"
    by simp
qed (simp_all add: loop_body_sent_once, simp_all add: sent_once_def)

lemma run_calls_reliability:
  assumes "run_calls ndebug calls s = Inr s'"
  shows "is_reliable (heap s' p) = is_reliable (heap s p)"
proof -
  have "loop_body ndebug last_it s = Inr (f, s') \<Longrightarrow> is_reliable (heap s' p) = is_reliable (heap s p)"
    for ndebug last_it s f s'
    using loop_body_effect [of ndebug last_it s f s'] by (auto split: if_splits)
  then show ?thesis
    using run_calls_invariant [of "\<lambda>t. is_reliable (heap t p) = is_reliable (heap s p)",
        OF _ _ _ _ _ assms]
    by simp
qed

text \<open>
  A pass that writes a record removes the targets of the record from the target set of
  an unreliable message, so that no later record of the message can name them.
\<close>

lemma loop_body_sent_disjoint:
  assumes "loop_body ndebug last_it s = Inr (f, s')" "sent_disjoint s"
  shows "sent_disjoint s'"
proof -
  from loop_body_effect [OF assms(1)] obtain c p ti
    where ti: "ti = set_intersection (targets (heap s p)) (q_targets (queue s))"
      and eff: "(ti = [] \<and> heap s' = heap s \<and> encoded s' = encoded s)
        \<or> (ti \<noteq> [] \<and> heap s' = heap s \<and> encoded s' = encoded s)
        \<or> (ti \<noteq> [] \<and> encoded s' = encoded s @ [(p, ti)]
            \<and> heap s' = (if is_reliable (heap s p) then heap s
                else (heap s)(p := (heap s p)\<lparr>targets :=
                       fold set_erase (q_targets (queue s)) (targets (heap s p))\<rparr>)))"
    by blast
  from eff consider (same) "heap s' = heap s" "encoded s' = encoded s"
    | (sent) "encoded s' = encoded s @ [(p, ti)]"
        "heap s' = (if is_reliable (heap s p) then heap s
                else (heap s)(p := (heap s p)\<lparr>targets :=
                       fold set_erase (q_targets (queue s)) (targets (heap s p))\<rparr>))"
    by blast
  then show ?thesis
  proof cases
    case same
    with assms(2) show ?thesis
      by (simp add: sent_disjoint_def records_to_def)
  next
    case sent
    have rel: "is_reliable (heap s' q) = is_reliable (heap s q)" for q
      using sent(2) by simp
    have shrink: "set (targets (heap s' q)) \<subseteq> set (targets (heap s q))" for q
      using sent(2) by (auto simp add: set_fold_set_erase)
    have sub: "set ti \<subseteq> set (targets (heap s p))" "set ti \<subseteq> set (q_targets (queue s))"
      using set_set_intersection [of "targets (heap s p)" "q_targets (queue s)"] ti by auto
    have new: "records_to q t s' = records_to q t s @ (if q = p \<and> t \<in> set ti then [(p, ti)] else [])"
      for q t
      by (auto simp add: records_to_def sent(1))
    show ?thesis
      unfolding sent_disjoint_def
    proof (intro allI impI)
      fix q t
      assume "\<not> is_reliable (heap s' q)"
      then have u: "\<not> is_reliable (heap s q)"
        by (simp add: rel)
      with assms(2) have old: "length (records_to q t s) \<le> 1"
        "t \<in> set (targets (heap s q)) \<Longrightarrow> records_to q t s = []"
        by (simp_all add: sent_disjoint_def)
      show "length (records_to q t s') \<le> 1
        \<and> (t \<in> set (targets (heap s' q)) \<longrightarrow> records_to q t s' = [])"
      proof (cases "q = p \<and> t \<in> set ti")
        case True
        with sub(1) old(2) have "records_to q t s = []"
          by blast
        moreover from True u have "set (targets (heap s' q))
          = set (targets (heap s p)) - set (q_targets (queue s))"
          using sent(2) by (simp add: set_fold_set_erase)
        with True sub(2) have "t \<notin> set (targets (heap s' q))"
          by blast
        ultimately show ?thesis
          by (simp add: new True)
      next
        case False
        then have "records_to q t s' = records_to q t s"
          by (simp add: new)
        with old shrink [of q] show ?thesis
          by auto
      qed
    qed
  qed
qed

lemma run_calls_sent_disjoint:
  assumes "sent_disjoint s" "run_calls ndebug calls s = Inr s'"
  shows "sent_disjoint s'"
  by (rule run_calls_invariant [of sent_disjoint, OF _ _ _ _ assms])
    (simp_all add: loop_body_sent_disjoint, simp_all add: sent_disjoint_def records_to_def)

text \<open>What one pass of the loop does to the list and to the released messages.\<close>

lemma erase_effect:
  assumes "erase c q = Inr q'"
  shows "\<exists>p. list_deref c (q_messages q) = Some p
    \<and> q_messages q' = list_erase c (q_messages q) \<and> q_released q' = q_released q @ [p]"
  using assms by (auto simp add: erase_def Let_def split: option.splits if_splits)

lemma erase_current_erasure:
  assumes "erase_current c fl s = Inr (f, s')"
  shows "\<exists>p. list_deref c (q_messages (queue s)) = Some p
    \<and> q_messages (queue s') = list_erase c (q_messages (queue s))
    \<and> q_released (queue s') = q_released (queue s) @ [p]"
  using assms by (auto simp add: erase_current_def split: sum.splits dest: erase_effect)

lemma after_encode_erasure:
  assumes "after_encode c p il s = Inr (f, s')" "list_deref c (q_messages (queue s)) = Some p"
  shows "if \<not> is_reliable (heap s p)
        \<and> fold set_erase (q_targets (queue s)) (targets (heap s p)) = []
     then q_messages (queue s') = list_erase c (q_messages (queue s))
        \<and> q_released (queue s') = q_released (queue s) @ [p]
     else q_messages (queue s') = q_messages (queue s)
        \<and> q_released (queue s') = q_released (queue s)"
  using assms
  by (auto simp add: after_encode_def Let_def split: if_splits dest!: erase_current_erasure)

lemma encode_current_erasure:
  assumes "encode_current ndebug c p il s = Inr (f, s')"
    "list_deref c (q_messages (queue s)) = Some p"
  shows "if q_target_intersection (queue s) = []
        \<or> (encoded s' \<noteq> encoded s \<and> \<not> is_reliable (heap s p)
            \<and> fold set_erase (q_targets (queue s)) (targets (heap s p)) = [])
     then q_messages (queue s') = list_erase c (q_messages (queue s))
        \<and> q_released (queue s') = q_released (queue s) @ [p]
     else q_messages (queue s') = q_messages (queue s)
        \<and> q_released (queue s') = q_released (queue s)"
proof (cases "q_target_intersection (queue s) = []")
  case True
  with assms(1) have "erase_current c Continue s = Inr (f, s')"
    by (simp add: encode_current_def Let_def)
  from erase_current_erasure [OF this] assms(2) True show ?thesis
    by auto
next
  case False
  with assms(1) obtain ok e m
    where t: "try_encode ndebug (enc s, mem s) (q_target_intersection (queue s)) (heap s p)
        = Inr (ok, e, m)"
    by (auto simp add: encode_current_def Let_def split: sum.splits)
  show ?thesis
  proof (cases ok)
    case no: False
    with assms(1) False t show ?thesis
      by (auto simp add: encode_current_def Let_def)
  next
    case True
    define s1 where "s1 = s\<lparr>enc := e, mem := m, count := count s + 1,
      encoded := encoded s @ [(p, q_target_intersection (queue s))]\<rparr>"
    from assms(1) False t True have a: "after_encode c p il s1 = Inr (f, s')"
      by (simp add: encode_current_def Let_def s1_def)
    from after_encode_effect [OF a] have "encoded s' \<noteq> encoded s"
      by (simp add: s1_def)
    moreover from after_encode_erasure [OF a] assms(2)
    have "if \<not> is_reliable (heap s p)
        \<and> fold set_erase (q_targets (queue s)) (targets (heap s p)) = []
     then q_messages (queue s') = list_erase c (q_messages (queue s))
        \<and> q_released (queue s') = q_released (queue s) @ [p]
     else q_messages (queue s') = q_messages (queue s)
        \<and> q_released (queue s') = q_released (queue s)"
      by (simp add: s1_def)
    ultimately show ?thesis
      using False by (simp split: if_splits)
  qed
qed

lemma loop_body_erasure:
  assumes "loop_body ndebug last_it s = Inr (f, s')"
    "q_next (queue s) = Some c" "list_deref c (q_messages (queue s)) = Some p"
  shows "if set_intersection (targets (heap s p)) (q_targets (queue s)) = []
        \<or> (encoded s' \<noteq> encoded s \<and> \<not> is_reliable (heap s p)
            \<and> fold set_erase (q_targets (queue s)) (targets (heap s p)) = [])
     then q_messages (queue s') = list_erase c (q_messages (queue s))
        \<and> q_released (queue s') = q_released (queue s) @ [p]
     else q_messages (queue s') = q_messages (queue s)
        \<and> q_released (queue s') = q_released (queue s)"
proof -
  from assms obtain nxt where
    "encode_current ndebug c p (Some c = last_it)
       (s\<lparr>queue := (queue s)\<lparr>q_next := nxt, q_target_intersection :=
          set_intersection (targets (heap s p)) (q_targets (queue s))\<rparr>\<rparr>) = Inr (f, s')"
    by (auto simp add: loop_body_def Let_def split: sum.splits)
  from encode_current_erasure [OF this] assms(3) show ?thesis
    by simp
qed

lemma loop_body_released_when_done:
  assumes "loop_body ndebug last_it s = Inr (f, s')" "released_when_done s"
  shows "released_when_done s'"
proof -
  from loop_body_effect [OF assms(1)] obtain c p ti
    where c: "q_next (queue s) = Some c" "list_deref c (q_messages (queue s)) = Some p"
      and eff: "(ti = [] \<and> heap s' = heap s \<and> encoded s' = encoded s)
        \<or> (ti \<noteq> [] \<and> heap s' = heap s \<and> encoded s' = encoded s)
        \<or> (ti \<noteq> [] \<and> encoded s' = encoded s @ [(p, ti)]
            \<and> heap s' = (if is_reliable (heap s p) then heap s
                else (heap s)(p := (heap s p)\<lparr>targets :=
                       fold set_erase (q_targets (queue s)) (targets (heap s p))\<rparr>)))"
    by blast
  note er = loop_body_erasure [OF assms(1) c]
  from er have grow: "set (q_released (queue s)) \<subseteq> set (q_released (queue s'))"
    by (auto split: if_splits)
  from eff consider (same) "heap s' = heap s" "encoded s' = encoded s"
    | (sent) "encoded s' = encoded s @ [(p, ti)]"
        "heap s' = (if is_reliable (heap s p) then heap s
                else (heap s)(p := (heap s p)\<lparr>targets :=
                       fold set_erase (q_targets (queue s)) (targets (heap s p))\<rparr>))"
    by blast
  then show ?thesis
  proof cases
    case same
    with assms(2) grow show ?thesis
      unfolding released_when_done_def by auto
  next
    case sent
    show ?thesis
      unfolding released_when_done_def
    proof (intro allI impI)
      fix q
      assume q: "\<not> is_reliable (heap s' q) \<and> q \<in> fst ` set (encoded s')
        \<and> targets (heap s' q) = []"
      show "q \<in> set (q_released (queue s'))"
      proof (cases "q = p")
        case True
        with q sent(2) have "\<not> is_reliable (heap s p)"
          "fold set_erase (q_targets (queue s)) (targets (heap s p)) = []"
          by (auto split: if_splits)
        moreover have "encoded s' \<noteq> encoded s"
          by (simp add: sent(1))
        ultimately have "q_released (queue s') = q_released (queue s) @ [p]"
          using er by simp
        with True show ?thesis
          by simp
      next
        case False
        with q sent have "\<not> is_reliable (heap s q) \<and> q \<in> fst ` set (encoded s)
          \<and> targets (heap s q) = []"
          by (auto split: if_splits)
        with assms(2) have "q \<in> set (q_released (queue s))"
          unfolding released_when_done_def by blast
        with grow show ?thesis
          by blast
      qed
    qed
  qed
qed

lemma run_calls_released_when_done:
  assumes "released_when_done s" "run_calls ndebug calls s = Inr s'"
  shows "released_when_done s'"
  by (rule run_calls_invariant [of released_when_done, OF _ _ _ _ assms])
    (simp_all add: loop_body_released_when_done,
      simp_all add: released_when_done_def insert_message_released add_target_fields)

lemma count_list_erase_le:
  "count_list (map snd (list_erase c xs)) p \<le> count_list (map snd xs) p"
  by (induction xs) (simp_all add: list_erase_def)

lemma set_list_erase_subset: "set (list_erase c xs) \<subseteq> set xs"
  by (simp add: list_erase_def)

lemma single_holder_erased:
  assumes "count_list (map snd xs) p \<le> 1" "list_deref c xs = Some p"
  shows "p \<notin> snd ` set (list_erase c xs)"
proof -
  from assms(2) have "(c, p) \<in> set xs"
    by (simp add: list_deref_def map_of_SomeD)
  with assms(1) show ?thesis
  proof (induction xs)
    case Nil
    then show ?case by simp
  next
    case (Cons x xs)
    show ?case
    proof (cases "snd x = p")
      case True
      with Cons.prems(1) have "count_list (map snd xs) p = 0"
        by simp
      then have none: "p \<notin> snd ` set xs"
        by (simp add: count_list_0_iff)
      with Cons.prems(2) have "x = (c, p)"
        by force
      with none show ?thesis
        by (auto simp add: list_erase_def)
    next
      case False
      with Cons.prems have "count_list (map snd xs) p \<le> 1" "(c, p) \<in> set xs"
        by auto
      from Cons.IH [OF this] False show ?thesis
        by (auto simp add: list_erase_def)
    qed
  qed
qed

lemma set_list_insert: "set (list_insert i x xs) = insert x (set xs)"
proof (cases i)
  case None
  then show ?thesis by (simp add: list_insert_def)
next
  case (Some n)
  have "set xs = set (takeWhile (\<lambda>y. fst y \<noteq> n) xs) \<union> set (dropWhile (\<lambda>y. fst y \<noteq> n) xs)"
    by (metis set_append takeWhile_dropWhile_id)
  with Some show ?thesis
    by (simp add: list_insert_def)
qed

lemma count_list_list_insert:
  "count_list (map snd (list_insert i x xs)) p
     = count_list (map snd xs) p + (if snd x = p then 1 else 0)"
proof (cases i)
  case None
  then show ?thesis by (simp add: list_insert_def)
next
  case (Some n)
  have "count_list (map snd xs) p
    = count_list (map snd (takeWhile (\<lambda>y. fst y \<noteq> n) xs)) p
      + count_list (map snd (dropWhile (\<lambda>y. fst y \<noteq> n) xs)) p"
    by (metis count_list_append map_append takeWhile_dropWhile_id)
  with Some show ?thesis
    by (simp add: list_insert_def)
qed

lemma insert_message_messages:
  "q_messages (insert_message p q) = list_insert (q_next q) (q_alloc q, p) (q_messages q)"
  by (simp add: insert_message_def Let_def)

lemma loop_body_erased_when_done:
  assumes "loop_body ndebug last_it s = Inr (f, s')" "erased_when_done r s"
  shows "erased_when_done r s'"
proof -
  from loop_body_effect [OF assms(1)] obtain c p ti
    where c: "q_next (queue s) = Some c" "list_deref c (q_messages (queue s)) = Some p"
      and eff: "(ti = [] \<and> heap s' = heap s \<and> encoded s' = encoded s)
        \<or> (ti \<noteq> [] \<and> heap s' = heap s \<and> encoded s' = encoded s)
        \<or> (ti \<noteq> [] \<and> encoded s' = encoded s @ [(p, ti)]
            \<and> heap s' = (if is_reliable (heap s p) then heap s
                else (heap s)(p := (heap s p)\<lparr>targets :=
                       fold set_erase (q_targets (queue s)) (targets (heap s p))\<rparr>)))"
    by blast
  note er = loop_body_erasure [OF assms(1) c]
  from assms(2) have u: "\<not> is_reliable (heap s r)"
    and one: "count_list (map snd (q_messages (queue s))) r \<le> 1"
    and old: "r \<in> fst ` set (encoded s) \<and> targets (heap s r) = []
      \<Longrightarrow> r \<notin> snd ` set (q_messages (queue s))"
    by (simp_all add: erased_when_done_def)
  from er have msgs: "q_messages (queue s') = q_messages (queue s)
    \<or> q_messages (queue s') = list_erase c (q_messages (queue s))"
    by (auto split: if_splits)
  then have sub: "set (q_messages (queue s')) \<subseteq> set (q_messages (queue s))"
    using set_list_erase_subset [of c "q_messages (queue s)"] by auto
  from msgs one have one': "count_list (map snd (q_messages (queue s'))) r \<le> 1"
    using count_list_erase_le [of c "q_messages (queue s)" r] by auto
  from eff have u': "\<not> is_reliable (heap s' r)"
    using u by (auto split: if_splits)
  from eff consider (same) "heap s' = heap s" "encoded s' = encoded s"
    | (sent) "encoded s' = encoded s @ [(p, ti)]"
        "heap s' = (if is_reliable (heap s p) then heap s
                else (heap s)(p := (heap s p)\<lparr>targets :=
                       fold set_erase (q_targets (queue s)) (targets (heap s p))\<rparr>))"
    by blast
  then have "r \<in> fst ` set (encoded s') \<and> targets (heap s' r) = []
    \<Longrightarrow> r \<notin> snd ` set (q_messages (queue s'))"
  proof cases
    case same
    assume "r \<in> fst ` set (encoded s') \<and> targets (heap s' r) = []"
    with same old have "r \<notin> snd ` set (q_messages (queue s))"
      by simp
    with sub show ?thesis
      by blast
  next
    case sent
    assume r: "r \<in> fst ` set (encoded s') \<and> targets (heap s' r) = []"
    show ?thesis
    proof (cases "r = p")
      case True
      with r sent(2) u have "\<not> is_reliable (heap s p)"
        "fold set_erase (q_targets (queue s)) (targets (heap s p)) = []"
        by (auto split: if_splits)
      moreover have "encoded s' \<noteq> encoded s"
        by (simp add: sent(1))
      ultimately have "q_messages (queue s') = list_erase c (q_messages (queue s))"
        using er by simp
      with single_holder_erased [of "q_messages (queue s)" r c] one c(2) True show ?thesis
        by simp
    next
      case False
      with r sent have "r \<in> fst ` set (encoded s) \<and> targets (heap s r) = []"
        by (auto split: if_splits)
      from old [OF this] sub show ?thesis
        by blast
    qed
  qed
  with u' one' show ?thesis
    by (simp add: erased_when_done_def)
qed

lemma run_calls_erased_when_done:
  assumes "erased_when_done r s" "run_calls ndebug calls s = Inr s'"
    "InsertMessage r \<notin> set calls"
  shows "erased_when_done r s'"
proof (rule run_calls_invariant [of "erased_when_done r", OF _ _ _ _ assms(1,2)])
  fix s p
  assume "InsertMessage p \<in> set calls" "erased_when_done r s"
  with assms(3) have "p \<noteq> r" "erased_when_done r s"
    by auto
  then show "erased_when_done r (s\<lparr>queue := insert_message p (queue s)\<rparr>)"
    by (auto simp add: erased_when_done_def insert_message_messages count_list_list_insert
        set_list_insert)
qed (simp_all add: loop_body_erased_when_done,
    simp_all add: erased_when_done_def add_target_fields)

text \<open>
  A pass that encodes an unreliable message: the record names the targets of the link
  that were in its target set, all targets of the link leave the target set, and the
  node is erased and its message released exactly when no target is left.
\<close>

lemma loop_body_unreliable_sent:
  assumes "loop_body ndebug last_it t = Inr (f, t')"
    "q_next (queue t) = Some c" "list_deref c (q_messages (queue t)) = Some p"
    "\<not> is_reliable (heap t p)" "encoded t' \<noteq> encoded t"
  shows "encoded t' = encoded t @ [(p, set_intersection (targets (heap t p)) (q_targets (queue t)))]
    \<and> set (targets (heap t' p)) = set (targets (heap t p)) - set (q_targets (queue t))
    \<and> (if targets (heap t' p) = []
        then q_messages (queue t') = list_erase c (q_messages (queue t))
           \<and> q_released (queue t') = q_released (queue t) @ [p]
        else q_messages (queue t') = q_messages (queue t)
           \<and> q_released (queue t') = q_released (queue t))"
proof -
  define ti where "ti = set_intersection (targets (heap t p)) (q_targets (queue t))"
  from loop_body_effect [OF assms(1)] assms(2,3,5)
  have sent: "ti \<noteq> []" "encoded t' = encoded t @ [(p, ti)]"
    "heap t' = (if is_reliable (heap t p) then heap t
                else (heap t)(p := (heap t p)\<lparr>targets :=
                       fold set_erase (q_targets (queue t)) (targets (heap t p))\<rparr>))"
    unfolding ti_def by auto
  from sent(3) assms(4)
  have tg: "targets (heap t' p) = fold set_erase (q_targets (queue t)) (targets (heap t p))"
    by simp
  then have "set (targets (heap t' p)) = set (targets (heap t p)) - set (q_targets (queue t))"
    by (simp add: set_fold_set_erase)
  moreover from loop_body_erasure [OF assms(1,2,3)] sent(1) assms(4,5) tg
  have "if targets (heap t' p) = []
        then q_messages (queue t') = list_erase c (q_messages (queue t))
           \<and> q_released (queue t') = q_released (queue t) @ [p]
        else q_messages (queue t') = q_messages (queue t)
           \<and> q_released (queue t') = q_released (queue t)"
    unfolding ti_def by (simp split: if_splits)
  ultimately show ?thesis
    using sent(2) unfolding ti_def by simp
qed

text \<open>
  C4, as the code has it: over any history of \<open>encode_few\<close> calls on one queue, with
  insertions of messages and additions of targets to the link between them, starting
  with nothing encoded, an unreliable message \<open>p\<close> stays unreliable and is encoded at
  most once for each target: at most one of its records names a given target, and a
  target that is still in its target set is named by none. When no target is added to
  the link in the history, \<open>p\<close> is encoded at most once altogether, and once it has been
  encoded none of the targets of the link is left in its target set, so that later
  passes skip it. When \<open>p\<close> has been encoded and no target is left in its target set, it
  has been released, and no node of the list holds it any more (for a message that one
  node at most held at the start and that the history does not insert again). In each
  pass of the loop that encodes \<open>p\<close> from the node \<open>c\<close>, the record names the targets of
  the link in its target set, every target of the link is removed from the target set,
  and the node \<open>c\<close> is erased and \<open>p\<close> released exactly when the target set has become
  empty.
\<close>

theorem unreliable_encoded_once_per_target:
  assumes "run_calls ndebug calls s = Inr s'" and "encoded s = []"
    and "\<not> is_reliable (heap s p)"
  shows "\<not> is_reliable (heap s' p)
    \<and> (\<forall>t. length (records_to p t s') \<le> 1)
    \<and> (\<forall>t. t \<in> set (targets (heap s' p)) \<longrightarrow> records_to p t s' = [])
    \<and> ((\<forall>t. AddTarget t \<notin> set calls) \<longrightarrow>
         count_list (map fst (encoded s')) p \<le> 1
         \<and> (p \<in> fst ` set (encoded s') \<longrightarrow>
              set (targets (heap s' p)) \<inter> set (q_targets (queue s')) = {}))
    \<and> (p \<in> fst ` set (encoded s') \<and> targets (heap s' p) = [] \<longrightarrow>
         p \<in> set (q_released (queue s'))
         \<and> (InsertMessage p \<notin> set calls \<and> count_list (map snd (q_messages (queue s))) p \<le> 1
              \<longrightarrow> p \<notin> snd ` set (q_messages (queue s'))))
    \<and> (\<forall>last_it t f t' c.
          loop_body ndebug last_it t = Inr (f, t') \<and> q_next (queue t) = Some c
          \<and> list_deref c (q_messages (queue t)) = Some p
          \<and> \<not> is_reliable (heap t p) \<and> encoded t' \<noteq> encoded t \<longrightarrow>
            encoded t'
              = encoded t @ [(p, set_intersection (targets (heap t p)) (q_targets (queue t)))]
            \<and> set (targets (heap t' p)) = set (targets (heap t p)) - set (q_targets (queue t))
            \<and> (if targets (heap t' p) = []
                then q_messages (queue t') = list_erase c (q_messages (queue t))
                   \<and> q_released (queue t') = q_released (queue t) @ [p]
                else q_messages (queue t') = q_messages (queue t)
                   \<and> q_released (queue t') = q_released (queue t)))"
proof -
  have u: "\<not> is_reliable (heap s' p)"
    using run_calls_reliability [OF assms(1), of p] assms(3) by simp
  have "sent_disjoint s"
    using assms(2) by (simp add: sent_disjoint_def records_to_def)
  from run_calls_sent_disjoint [OF this assms(1)] u
  have per_target: "\<forall>t. length (records_to p t s') \<le> 1"
    and removed: "\<forall>t. t \<in> set (targets (heap s' p)) \<longrightarrow> records_to p t s' = []"
    by (simp_all add: sent_disjoint_def)
  have once: "count_list (map fst (encoded s')) p \<le> 1
      \<and> (p \<in> fst ` set (encoded s') \<longrightarrow>
           set (targets (heap s' p)) \<inter> set (q_targets (queue s')) = {})"
    if "\<forall>t. AddTarget t \<notin> set calls"
  proof -
    have "sent_once s"
      using assms(2) by (simp add: sent_once_def)
    from run_calls_sent_once [OF this assms(1) that] u show ?thesis
      by (simp add: sent_once_def)
  qed
  have "released_when_done s"
    using assms(2) by (simp add: released_when_done_def)
  from run_calls_released_when_done [OF this assms(1)] u
  have released: "p \<in> set (q_released (queue s'))"
    if "p \<in> fst ` set (encoded s') \<and> targets (heap s' p) = []"
    using that by (simp add: released_when_done_def)
  have erased: "p \<notin> snd ` set (q_messages (queue s'))"
    if "p \<in> fst ` set (encoded s') \<and> targets (heap s' p) = []"
      "InsertMessage p \<notin> set calls \<and> count_list (map snd (q_messages (queue s))) p \<le> 1"
  proof -
    have "erased_when_done p s"
      using assms(2,3) that(2) by (simp add: erased_when_done_def)
    from run_calls_erased_when_done [OF this assms(1)] that show ?thesis
      by (simp add: erased_when_done_def)
  qed
  have pass: "encoded t'
              = encoded t @ [(p, set_intersection (targets (heap t p)) (q_targets (queue t)))]
            \<and> set (targets (heap t' p)) = set (targets (heap t p)) - set (q_targets (queue t))
            \<and> (if targets (heap t' p) = []
                then q_messages (queue t') = list_erase c (q_messages (queue t))
                   \<and> q_released (queue t') = q_released (queue t) @ [p]
                else q_messages (queue t') = q_messages (queue t)
                   \<and> q_released (queue t') = q_released (queue t))"
    if "loop_body ndebug last_it t = Inr (f, t') \<and> q_next (queue t) = Some c
          \<and> list_deref c (q_messages (queue t)) = Some p
          \<and> \<not> is_reliable (heap t p) \<and> encoded t' \<noteq> encoded t"
    for last_it t f t' c
    using loop_body_unreliable_sent [of ndebug last_it t f t' c p] that by blast
  show ?thesis
  proof (intro conjI allI impI)
    show "\<not> is_reliable (heap s' p)"
      by (rule u)
  qed (use per_target removed once released erased pass in \<open>blast+\<close>)
qed

theorem unreliable_encoded_once_per_target_witness:
  "(\<exists>s'. run_calls True [EncodeFew (example_encoder 100) (\<lambda>_. 0), AddTarget 2,
                         EncodeFew (example_encoder 100) (\<lambda>_. 0)]
             (example_state example_unreliable example_reliable 100) = Inr s'
      \<and> encoded s' = [(0, [1]), (1, [1]), (0, [2]), (1, [1])]
      \<and> length (records_to 0 1 s') \<le> 1 \<and> length (records_to 0 2 s') \<le> 1
      \<and> targets (heap s' 0) = []
      \<and> 0 \<in> set (q_released (queue s'))
      \<and> 0 \<notin> snd ` set (q_messages (queue s')))
   \<and> (\<exists>s'. run_calls True [EncodeFew (example_encoder 100) (\<lambda>_. 0),
                           EncodeFew (example_encoder 100) (\<lambda>_. 0)]
               (example_state example_unreliable example_reliable 100) = Inr s'
        \<and> map fst (encoded s') = [0, 1, 1]
        \<and> count_list (map fst (encoded s')) 0 \<le> 1
        \<and> set (targets (heap s' 0)) \<inter> set (q_targets (queue s')) = {})
   \<and> (\<exists>f t'. loop_body True None
                 ((example_state example_unreliable example_reliable 100)
                    \<lparr>queue := add_target 2
                       (queue (example_state example_unreliable example_reliable 100))\<rparr>)
               = Inr (f, t')
        \<and> encoded t' = [(0, [1, 2])]
        \<and> targets (heap t' 0) = []
        \<and> q_messages (queue t') = [(1, 1)]
        \<and> q_released (queue t') = [0])"
proof (intro conjI)
  let ?s = "example_state example_unreliable example_reliable 100"
  let ?e = "EncodeFew (example_encoder 100) (\<lambda>_. 0)"
  have start: "encoded ?s = []" "\<not> is_reliable (heap ?s 0)"
    by (simp_all add: example_state_def example_unreliable_def)
  have "count_list (map snd (q_messages (queue ?s))) 0 \<le> 1"
    by code_simp
  moreover have "InsertMessage 0 \<notin> set [?e, AddTarget 2, ?e]"
    by simp
  ultimately have held: "InsertMessage 0 \<notin> set [?e, AddTarget 2, ?e]
    \<and> count_list (map snd (q_messages (queue ?s))) 0 \<le> 1"
    by (rule conjI [rotated])

  have "case run_calls True [?e, AddTarget 2, ?e] ?s of
      Inr s' \<Rightarrow> encoded s' = [(0, [1]), (1, [1]), (0, [2]), (1, [1])]
        \<and> targets (heap s' 0) = []
    | Inl _ \<Rightarrow> False"
    by code_simp
  then obtain s1 where s1: "run_calls True [?e, AddTarget 2, ?e] ?s = Inr s1"
    "encoded s1 = [(0, [1]), (1, [1]), (0, [2]), (1, [1])]" "targets (heap s1 0) = []"
    by (auto split: sum.splits)
  note inst1 = unreliable_encoded_once_per_target [OF s1(1) start]
  from inst1 have per_target: "\<forall>t. length (records_to 0 t s1) \<le> 1"
    by (rule conjunct1 [OF conjunct2])
  from per_target have to1: "length (records_to 0 1 s1) \<le> 1" ..
  from per_target have to2: "length (records_to 0 2 s1) \<le> 1" ..
  from inst1 have fin: "0 \<in> fst ` set (encoded s1) \<and> targets (heap s1 0) = [] \<longrightarrow>
         0 \<in> set (q_released (queue s1))
         \<and> (InsertMessage 0 \<notin> set [?e, AddTarget 2, ?e]
              \<and> count_list (map snd (q_messages (queue ?s))) 0 \<le> 1
              \<longrightarrow> 0 \<notin> snd ` set (q_messages (queue s1)))"
    by (rule conjunct1 [OF conjunct2 [OF conjunct2 [OF conjunct2 [OF conjunct2]]]])
  have "0 \<in> fst ` set (encoded s1)"
    unfolding s1(2) by simp
  then have "0 \<in> fst ` set (encoded s1) \<and> targets (heap s1 0) = []"
    using s1(3) by (rule conjI)
  with fin have both: "0 \<in> set (q_released (queue s1))
         \<and> (InsertMessage 0 \<notin> set [?e, AddTarget 2, ?e]
              \<and> count_list (map snd (q_messages (queue ?s))) 0 \<le> 1
              \<longrightarrow> 0 \<notin> snd ` set (q_messages (queue s1)))"
    by (rule mp)
  from both have rel: "0 \<in> set (q_released (queue s1))"
    by (rule conjunct1)
  from both have er: "InsertMessage 0 \<notin> set [?e, AddTarget 2, ?e]
              \<and> count_list (map snd (q_messages (queue ?s))) 0 \<le> 1
              \<longrightarrow> 0 \<notin> snd ` set (q_messages (queue s1))"
    by (rule conjunct2)
  from er held have "0 \<notin> snd ` set (q_messages (queue s1))"
    by (rule mp)
  with s1 to1 to2 rel
  show "\<exists>s'. run_calls True [?e, AddTarget 2, ?e] ?s = Inr s'
      \<and> encoded s' = [(0, [1]), (1, [1]), (0, [2]), (1, [1])]
      \<and> length (records_to 0 1 s') \<le> 1 \<and> length (records_to 0 2 s') \<le> 1
      \<and> targets (heap s' 0) = []
      \<and> 0 \<in> set (q_released (queue s'))
      \<and> 0 \<notin> snd ` set (q_messages (queue s'))"
    by (intro exI [of _ s1] conjI)

  have "case run_calls True [?e, ?e] ?s of
      Inr s' \<Rightarrow> map fst (encoded s') = [0, 1, 1] | Inl _ \<Rightarrow> False"
    by code_simp
  then obtain s2 where s2: "run_calls True [?e, ?e] ?s = Inr s2"
    "map fst (encoded s2) = [0, 1, 1]"
    by (auto split: sum.splits)
  note inst2 = unreliable_encoded_once_per_target [OF s2(1) start]
  from inst2 have fixed: "(\<forall>t. AddTarget t \<notin> set [?e, ?e]) \<longrightarrow>
         count_list (map fst (encoded s2)) 0 \<le> 1
         \<and> (0 \<in> fst ` set (encoded s2) \<longrightarrow>
              set (targets (heap s2 0)) \<inter> set (q_targets (queue s2)) = {})"
    by (rule conjunct1 [OF conjunct2 [OF conjunct2 [OF conjunct2]]])
  have "\<forall>t. AddTarget t \<notin> set [?e, ?e]"
    by simp
  with fixed have both2: "count_list (map fst (encoded s2)) 0 \<le> 1
         \<and> (0 \<in> fst ` set (encoded s2) \<longrightarrow>
              set (targets (heap s2 0)) \<inter> set (q_targets (queue s2)) = {})"
    by (rule mp)
  from both2 have once: "count_list (map fst (encoded s2)) 0 \<le> 1"
    by (rule conjunct1)
  from both2 have gone: "0 \<in> fst ` set (encoded s2) \<longrightarrow>
      set (targets (heap s2 0)) \<inter> set (q_targets (queue s2)) = {}"
    by (rule conjunct2)
  have "0 \<in> set (map fst (encoded s2))"
    unfolding s2(2) by simp
  then have "0 \<in> fst ` set (encoded s2)"
    by (simp only: set_map)
  with gone have "set (targets (heap s2 0)) \<inter> set (q_targets (queue s2)) = {}"
    by (rule mp)
  with once s2
  show "\<exists>s'. run_calls True [?e, ?e] ?s = Inr s'
        \<and> map fst (encoded s') = [0, 1, 1]
        \<and> count_list (map fst (encoded s')) 0 \<le> 1
        \<and> set (targets (heap s' 0)) \<inter> set (q_targets (queue s')) = {}"
    by (intro exI [of _ s2] conjI)

  define t where "t = ?s\<lparr>queue := add_target 2 (queue ?s)\<rparr>"
  have "case loop_body True None t of
      Inr (f, t') \<Rightarrow> encoded t' = [(0, [1, 2])] \<and> targets (heap t' 0) = []
    | Inl _ \<Rightarrow> False"
    unfolding t_def by code_simp
  then obtain f t' where t': "loop_body True None t = Inr (f, t')"
    "encoded t' = [(0, [1, 2])]" "targets (heap t' 0) = []"
    by (auto split: sum.splits)
  have b1: "q_next (queue t) = Some 0"
    unfolding t_def by code_simp
  have b2: "list_deref 0 (q_messages (queue t)) = Some 0"
    unfolding t_def by code_simp
  have b3: "\<not> is_reliable (heap t 0)"
    unfolding t_def by code_simp
  have b4: "encoded t = []"
    unfolding t_def by code_simp
  have b5: "list_erase 0 (q_messages (queue t)) = [(1, 1)]"
    unfolding t_def by code_simp
  have b6: "q_released (queue t) = []"
    unfolding t_def by code_simp
  have b7: "encoded t' \<noteq> encoded t"
    unfolding t'(2) b4 by simp
  from inst2 have pass: "\<forall>last_it t f t' c.
          loop_body True last_it t = Inr (f, t') \<and> q_next (queue t) = Some c
          \<and> list_deref c (q_messages (queue t)) = Some 0
          \<and> \<not> is_reliable (heap t 0) \<and> encoded t' \<noteq> encoded t \<longrightarrow>
            encoded t'
              = encoded t @ [(0, set_intersection (targets (heap t 0)) (q_targets (queue t)))]
            \<and> set (targets (heap t' 0)) = set (targets (heap t 0)) - set (q_targets (queue t))
            \<and> (if targets (heap t' 0) = []
                then q_messages (queue t') = list_erase c (q_messages (queue t))
                   \<and> q_released (queue t') = q_released (queue t) @ [0]
                else q_messages (queue t') = q_messages (queue t)
                   \<and> q_released (queue t') = q_released (queue t))"
    by (rule conjunct2 [OF conjunct2 [OF conjunct2 [OF conjunct2 [OF conjunct2]]]])
  have "loop_body True None t = Inr (f, t') \<and> q_next (queue t) = Some 0
          \<and> list_deref 0 (q_messages (queue t)) = Some 0
          \<and> \<not> is_reliable (heap t 0) \<and> encoded t' \<noteq> encoded t"
    using t'(1) b1 b2 b3 b7 by (intro conjI)
  with pass [THEN spec, THEN spec, THEN spec, THEN spec, THEN spec]
  have "encoded t'
              = encoded t @ [(0, set_intersection (targets (heap t 0)) (q_targets (queue t)))]
            \<and> set (targets (heap t' 0)) = set (targets (heap t 0)) - set (q_targets (queue t))
            \<and> (if targets (heap t' 0) = []
                then q_messages (queue t') = list_erase 0 (q_messages (queue t))
                   \<and> q_released (queue t') = q_released (queue t) @ [0]
                else q_messages (queue t') = q_messages (queue t)
                   \<and> q_released (queue t') = q_released (queue t))"
    by (rule mp)
  then have "q_messages (queue t') = list_erase 0 (q_messages (queue t))
                   \<and> q_released (queue t') = q_released (queue t) @ [0]"
    by (simp only: t'(3) if_True)
  then have "q_messages (queue t') = [(1, 1)]" "q_released (queue t') = [0]"
    unfolding b5 b6 by simp_all
  with t'
  show "\<exists>f t'. loop_body True None
                 ((example_state example_unreliable example_reliable 100)
                    \<lparr>queue := add_target 2
                       (queue (example_state example_unreliable example_reliable 100))\<rparr>)
               = Inr (f, t')
        \<and> encoded t' = [(0, [1, 2])]
        \<and> targets (heap t' 0) = []
        \<and> q_messages (queue t') = [(1, 1)]
        \<and> q_released (queue t') = [0]"
    unfolding t_def by (intro exI [of _ f] exI [of _ t'] conjI)
qed

theorem unreliable_encoded_twice_counterexample:
  "case run_calls True [EncodeFew (example_encoder 100) (\<lambda>_. 0), AddTarget 2,
                       EncodeFew (example_encoder 100) (\<lambda>_. 0)]
          (example_state example_unreliable example_reliable 100) of
     Inr s' \<Rightarrow> encoded s' = [(0, [1]), (1, [1]), (0, [2]), (1, [1])]
       \<and> count_list (map fst (encoded s')) 0 = 2
       \<and> \<not> is_reliable (heap s' 0)
   | Inl _ \<Rightarrow> False"
  by code_simp

lemma example_state_well_formed:
  "well_formed (queue (example_state m0 m1 room))
   \<and> cursor_invariant (queue (example_state m0 m1 room))"
  by (simp add: example_state_def insert_message_def TransmitQueue_init_def add_target_def
      well_formed_def cursor_invariant_def list_insert_def list_begin_def nodes_def)

text \<open>
  C2 fails on the code. The queue holds a reliable message for the link (at the cursor)
  and, as the circular predecessor of the cursor, a message none of whose targets is a
  target of the link. The first pass encodes the reliable message; the second erases the
  other one and, through \<^verbatim>\<open>continue\<close>, skips the test \<^verbatim>\<open>if (is_last) break;\<close>; from
  then on \<^verbatim>\<open>last\<close> dangles and the loop goes round until the buffer is full: the
  reliable message is encoded three times in one call.
\<close>

theorem encode_few_repeats_message:
  "case encode_few False (example_state example_reliable example_acked 100) of
     Inr s \<Rightarrow> map fst (encoded s) = [0, 0, 0] \<and> count s = 3
       \<and> q_messages (queue s) = [(0, 0)]
   | Inl _ \<Rightarrow> False"
  by code_simp

subsection \<open>The target count of a record\<close>












subsection \<open>Rolling back the encoder\<close>

lemma put_raw_frame:
  "current_end (fst (put_raw bs em)) = current_end (fst em)
   \<and> current_begin (fst em) \<le> current_begin (fst (put_raw bs em))
   \<and> (\<forall>a<current_begin (fst em). snd (put_raw bs em) a = snd em a)"
  by (cases em) (auto simp add: put_raw_def write_bytes_below)

lemma encode_frame:
  assumes "encode ndebug em ts msg = Inr em'"
  shows "current_end (fst em') = current_end (fst em)
    \<and> (\<forall>a<current_begin (fst em). snd em' a = snd em a)"
proof (cases "length ts \<le> 255")
  case True
  define chunks where
    "chunks = [uuid_bytes (source msg), [of_nat (length ts)]] @ map uuid_bytes ts @ [bytes msg]"
  from assms encode_as_fold [OF True, of ndebug em msg]
  have "em' = fold put_raw chunks em"
    unfolding chunks_def by simp
  then show ?thesis
    using fold_put_raw_below [of _ em chunks] by simp
next
  case False
  define em1 where "em1 = put_raw (uuid_bytes (source msg)) em"
  from assms False have em': "em' = put_raw (bytes msg) (set_error (fst em1), snd em1)"
    by (auto simp add: encode_def encode_targets_def put_uuid_def em1_def split: if_splits)
  have 1: "current_end (fst em1) = current_end (fst em)"
    "current_begin (fst em) \<le> current_begin (fst em1)"
    "\<forall>a<current_begin (fst em). snd em1 a = snd em a"
    using put_raw_frame [of "uuid_bytes (source msg)" em] by (simp_all add: em1_def)
  from put_raw_frame [of "bytes msg" "(set_error (fst em1), snd em1)"] 1 show ?thesis
    by (simp add: em' set_error_def)
qed

lemma try_encode_False:
  assumes "try_encode ndebug (e, m) ts msg = Inr (False, e', m')"
  shows "e' = e \<and> (\<forall>a<current_begin e. m' a = m a)"
proof -
  from assms obtain e1 where enc: "encode ndebug (e, m) ts msg = Inr (e1, m')"
    and e': "e' = e1\<lparr>current_begin := current_begin e, was_error := was_error e\<rparr>"
    by (auto simp add: try_encode_def Let_def split: sum.splits prod.splits if_splits)
  from encode_frame [OF enc] have "current_end e1 = current_end e"
    "\<forall>a<current_begin e. m' a = m a"
    by simp_all
  then show ?thesis
    unfolding e' by (cases e; cases e1) simp
qed

lemma encode_loop_log_grows:
  assumes "encode_loop ndebug last_it s = Inr s'"
  shows "\<exists>rest. encoded s' = encoded s @ rest"
proof -
  have "\<exists>rest. encoded t' = encoded s @ rest"
    if "loop_body nd l t = Inr (f, t')" "\<exists>rest. encoded t = encoded s @ rest" for nd l t f t'
    using loop_body_effect [OF that(1)] that(2) by auto
  from encode_loop_invariant [of "\<lambda>t. \<exists>rest. encoded t = encoded s @ rest", OF this _ assms]
  show ?thesis
    by simp
qed

lemma encode_few_starts_at_cursor:
  assumes "q_next (queue s) = Some c" "list_deref c (q_messages (queue s)) = Some p"
    and "ti = set_intersection (targets (heap s p)) (q_targets (queue s))" "ti \<noteq> []"
    and "try_encode ndebug (enc s, mem s) ti (heap s p) = Inr (True, e, m)"
    and "encode_few ndebug s = Inr s'"
  shows "\<exists>rest. encoded s' = encoded s @ (p, ti) # rest"
proof -
  define s0 where "s0 = s\<lparr>count := 0\<rparr>"
  have "q_messages (queue s) \<noteq> []"
    using list_deref_Some [OF assms(2)] by auto
  with assms(6) obtain l where loop: "encode_loop ndebug l s0 = Inr s'"
    by (auto simp add: encode_few_def s0_def split: sum.splits)
  then obtain f s1 where body: "loop_body ndebug l s0 = Inr (f, s1)"
    by (subst (asm) encode_loop.simps) (auto split: sum.splits)
  have s0: "q_next (queue s0) = Some c" "list_deref c (q_messages (queue s0)) = Some p"
    "set_intersection (targets (heap s0 p)) (q_targets (queue s0)) = ti"
    "try_encode ndebug (enc s0, mem s0) ti (heap s0 p) = Inr (True, e, m)"
    "encoded s0 = encoded s"
    using assms by (simp_all add: s0_def)
  from loop_body_effect [OF body] s0 assms(4) have 1: "encoded s1 = encoded s @ [(p, ti)]"
    by auto
  show ?thesis
  proof (cases f)
    case Break
    with body loop have "s' = s1"
      by (subst (asm) encode_loop.simps) simp
    with 1 show ?thesis by simp
  next
    case Continue
    with body loop have "encode_loop ndebug l s1 = Inr s'"
      by (subst (asm) encode_loop.simps) simp
    from encode_loop_log_grows [OF this] 1 show ?thesis
      by auto
  qed
qed

lemma encode_loop_stops_on_failure:
  assumes "q_next (queue s) = Some c"
    and "list_deref c (q_messages (queue s)) = Some p"
    and "circular_increment ndebug (queue s) (Some c) = Inr nxt"
    and "ti = set_intersection (targets (heap s p)) (q_targets (queue s))"
    and "ti \<noteq> []"
    and "try_encode ndebug (enc s, mem s) ti (heap s p) = Inr (False, e, m)"
  shows "encode_loop ndebug last_it s =
    Inr (s\<lparr>queue := (queue s)\<lparr>q_next := Some c, q_target_intersection := ti\<rparr>,
            enc := e, mem := m\<rparr>)"
proof -
  have "loop_body ndebug last_it s =
    Inr (Break, s\<lparr>queue := (queue s)\<lparr>q_next := Some c, q_target_intersection := ti\<rparr>,
            enc := e, mem := m\<rparr>)"
    using assms by (simp add: loop_body_def encode_current_def)
  then show ?thesis
    by (subst encode_loop.simps) simp
qed

text \<open>
  C7: whenever \<open>try_encode\<close> returns false, the encoder object is what it was before the
  attempt (write cursor and error flag restored, the end of the buffer untouched) and the
  bytes below the cursor are untouched. It returns false when the encoder has no room for
  the record: it is in error already, or fewer bytes are left than the 16 of the source,
  the count byte, 16 for each target and the payload. In a pass of the loop of
  \<open>encode_few\<close> in which \<open>try_encode\<close> returns false, the loop ends at once, with the
  cursor \<^verbatim>\<open>_next\<close> back on that message and nothing else changed but the cached
  intersection; and a next call of \<open>encode_few\<close>, with an encoder that has room, encodes
  that message first.
\<close>

theorem try_encode_rollback:
  "(try_encode ndebug (e, m) ts msg = Inr (False, e', m') \<longrightarrow>
      e' = e \<and> (\<forall>a<current_begin e. m' a = m a))
   \<and> (length ts \<le> 255
        \<and> (was_error e \<or> current_end e - current_begin e < 17 + 16 * length ts + length (bytes msg))
       \<longrightarrow> (\<exists>m'. try_encode ndebug (e, m) ts msg = Inr (False, e, m')))
   \<and> (q_next (queue s) = Some c \<and> list_deref c (q_messages (queue s)) = Some p
        \<and> circular_increment ndebug (queue s) (Some c) = Inr nxt
        \<and> ti = set_intersection (targets (heap s p)) (q_targets (queue s)) \<and> ti \<noteq> []
        \<and> try_encode ndebug (enc s, mem s) ti (heap s p) = Inr (False, e1, m1)
       \<longrightarrow> encode_loop ndebug last_it s =
             Inr (s\<lparr>queue := (queue s)\<lparr>q_next := Some c, q_target_intersection := ti\<rparr>,
                     enc := e1, mem := m1\<rparr>)
           \<and> (length ti \<le> 255 \<and> \<not> was_error e2
                \<and> 17 + 16 * length ti + length (bytes (heap s p)) \<le> current_end e2 - current_begin e2
                \<and> encode_few ndebug
                     (s\<lparr>queue := (queue s)\<lparr>q_next := Some c, q_target_intersection := ti\<rparr>,
                        enc := e2, mem := m2\<rparr>) = Inr s3
               \<longrightarrow> (\<exists>rest. encoded s3 = encoded s @ (p, ti) # rest)))"
proof (intro conjI impI)
  assume "try_encode ndebug (e, m) ts msg = Inr (False, e', m')"
  from try_encode_False [OF this] show "e' = e" "\<forall>a<current_begin e. m' a = m a"
    by simp_all
next
  assume a: "length ts \<le> 255
        \<and> (was_error e \<or> current_end e - current_begin e < 17 + 16 * length ts + length (bytes msg))"
  with try_encode_result [of ts ndebug e m msg]
  show "\<exists>m'. try_encode ndebug (e, m) ts msg = Inr (False, e, m')"
    by auto
next
  assume a: "q_next (queue s) = Some c \<and> list_deref c (q_messages (queue s)) = Some p
        \<and> circular_increment ndebug (queue s) (Some c) = Inr nxt
        \<and> ti = set_intersection (targets (heap s p)) (q_targets (queue s)) \<and> ti \<noteq> []
        \<and> try_encode ndebug (enc s, mem s) ti (heap s p) = Inr (False, e1, m1)"
  then show "encode_loop ndebug last_it s =
             Inr (s\<lparr>queue := (queue s)\<lparr>q_next := Some c, q_target_intersection := ti\<rparr>,
                     enc := e1, mem := m1\<rparr>)"
    using encode_loop_stops_on_failure [of s c p ndebug nxt ti e1 m1 last_it] by blast
  assume b: "length ti \<le> 255 \<and> \<not> was_error e2
                \<and> 17 + 16 * length ti + length (bytes (heap s p)) \<le> current_end e2 - current_begin e2
                \<and> encode_few ndebug
                     (s\<lparr>queue := (queue s)\<lparr>q_next := Some c, q_target_intersection := ti\<rparr>,
                        enc := e2, mem := m2\<rparr>) = Inr s3"
  define t where "t = s\<lparr>queue := (queue s)\<lparr>q_next := Some c, q_target_intersection := ti\<rparr>,
                        enc := e2, mem := m2\<rparr>"
  from b try_encode_result [of ti ndebug e2 m2 "heap s p"]
  obtain e3 m3 where "try_encode ndebug (e2, m2) ti (heap s p) = Inr (True, e3, m3)"
    by auto
  then have "try_encode ndebug (enc t, mem t) ti (heap t p) = Inr (True, e3, m3)"
    by (simp add: t_def)
  moreover from a have "q_next (queue s) = Some c" "list_deref c (q_messages (queue s)) = Some p"
    "ti = set_intersection (targets (heap s p)) (q_targets (queue s))" "ti \<noteq> []"
    by blast+
  then have "q_next (queue t) = Some c" "list_deref c (q_messages (queue t)) = Some p"
    "ti = set_intersection (targets (heap t p)) (q_targets (queue t))" "ti \<noteq> []"
    by (simp_all add: t_def)
  moreover from b have "encode_few ndebug t = Inr s3"
    unfolding t_def by blast
  moreover have "encoded t = encoded s"
    by (simp add: t_def)
  ultimately show "\<exists>rest. encoded s3 = encoded s @ (p, ti) # rest"
    using encode_few_starts_at_cursor [of t c p ti ndebug e3 m3 s3] by simp
qed

theorem try_encode_rollback_witness:
  "(\<exists>m'. try_encode False (example_encoder 20, \<lambda>_. 0) [1] example_reliable
        = Inr (False, example_encoder 20, m'))
   \<and> (\<exists>m1. encode_loop False (Some 1) (example_state example_reliable example_reliable 20)
        = Inr ((example_state example_reliable example_reliable 20)
            \<lparr>queue := (queue (example_state example_reliable example_reliable 20))
               \<lparr>q_next := Some 0, q_target_intersection := [1]\<rparr>,
             enc := example_encoder 20, mem := m1\<rparr>))
   \<and> (\<exists>s3 rest. encode_few False ((example_state example_reliable example_reliable 20)
            \<lparr>queue := (queue (example_state example_reliable example_reliable 20))
               \<lparr>q_next := Some 0, q_target_intersection := [1]\<rparr>,
             enc := example_encoder 100, mem := \<lambda>_. 0\<rparr>) = Inr s3
        \<and> encoded s3 = (0, [1]) # rest)"
proof -
  let ?S = "example_state example_reliable example_reliable 20"
  let ?T = "?S\<lparr>queue := (queue ?S)\<lparr>q_next := Some 0, q_target_intersection := [1]\<rparr>,
             enc := example_encoder 100, mem := \<lambda>_. 0\<rparr>"
  note inst = try_encode_rollback [where ndebug = False and e = "example_encoder 20"
      and m = "\<lambda>_. 0" and ts = "[1]" and msg = example_reliable and s = ?S and c = 0 and p = 0
      and nxt = "Some 1" and ti = "[1]" and last_it = "Some 1" and ?e2.0 = "example_encoder 100"
      and ?m2.0 = "\<lambda>_. 0" and ?e1.0 = "example_encoder 20"]
  have small: "length [1 :: uuid] \<le> 255
     \<and> (was_error (example_encoder 20)
        \<or> current_end (example_encoder 20) - current_begin (example_encoder 20)
            < 17 + 16 * length [1 :: uuid] + length (bytes example_reliable))"
    by (simp add: example_encoder_def example_reliable_def)
  with inst obtain m' where m': "try_encode False (example_encoder 20, \<lambda>_. 0) [1] example_reliable
      = Inr (False, example_encoder 20, m')"
    by blast
  have S: "q_next (queue ?S) = Some 0" "list_deref 0 (q_messages (queue ?S)) = Some 0"
    "circular_increment False (queue ?S) (Some 0) = Inr (Some 1)"
    "[1] = set_intersection (targets (heap ?S 0)) (q_targets (queue ?S))"
    by code_simp+
  have S': "enc ?S = example_encoder 20" "mem ?S = (\<lambda>_. 0)" "heap ?S 0 = example_reliable"
    "encoded ?S = []"
    by (simp_all add: example_state_def)
  have fail: "try_encode False (enc ?S, mem ?S) [1] (heap ?S 0) = Inr (False, example_encoder 20, m')"
    using m' by (simp only: S')
  have pre: "q_next (queue ?S) = Some 0 \<and> list_deref 0 (q_messages (queue ?S)) = Some 0
        \<and> circular_increment False (queue ?S) (Some 0) = Inr (Some 1)
        \<and> [1] = set_intersection (targets (heap ?S 0)) (q_targets (queue ?S)) \<and> [1 :: uuid] \<noteq> []
        \<and> try_encode False (enc ?S, mem ?S) [1] (heap ?S 0) = Inr (False, example_encoder 20, m')"
    by (intro conjI S fail) simp
  from inst [where ?m1.0 = m'] pre
  have stop: "encode_loop False (Some 1) ?S =
      Inr (?S\<lparr>queue := (queue ?S)\<lparr>q_next := Some 0, q_target_intersection := [1]\<rparr>,
              enc := example_encoder 20, mem := m'\<rparr>)"
    by blast
  have "case encode_few False ?T of Inr _ \<Rightarrow> True | Inl _ \<Rightarrow> False"
    by code_simp
  then obtain s3 where s3: "encode_few False ?T = Inr s3"
    by (auto split: sum.splits)
  have room: "length [1 :: uuid] \<le> 255 \<and> \<not> was_error (example_encoder 100)
      \<and> 17 + 16 * length [1 :: uuid] + length (bytes (heap ?S 0))
          \<le> current_end (example_encoder 100) - current_begin (example_encoder 100)
      \<and> encode_few False ?T = Inr s3"
  proof (intro conjI s3)
    show "17 + 16 * length [1 :: uuid] + length (bytes (heap ?S 0))
          \<le> current_end (example_encoder 100) - current_begin (example_encoder 100)"
      unfolding S'(3) by (simp add: example_encoder_def example_reliable_def)
  qed (simp_all add: example_encoder_def)
  from inst [where ?m1.0 = m' and ?s3.0 = s3] pre room
  have "\<exists>rest. encoded s3 = encoded ?S @ (0, [1]) # rest"
    by blast
  then obtain rest where "encoded s3 = (0, [1]) # rest"
    by (auto simp add: S')
  with m' stop s3 show ?thesis
    by blast
qed

end
